theory Spec2Isabelle
  imports Complex_Main
begin

section \<open>Double\_t values\<close>

text \<open>
  A \<^verbatim>\<open>Double_t\<close> is a finite value, one of the two infinities, or NaN. Finite values are
  carried as reals. Every arithmetic operation on finite values computes the exact result and
  rounds it to the nearest binary64 value, ties to even, as IEEE 754 prescribes; a result
  that rounds beyond the largest finite value is an infinity. The sign of zero is not part
  of this model. The special values follow IEEE 754: NaN is absorbing and compares false
  with everything, \<open>inf - inf\<close>, \<open>0 * inf\<close>, \<open>inf / inf\<close> and \<open>0 / 0\<close> are NaN, and a non-zero
  finite value divided by zero is an infinity.
\<close>

datatype Double_t = Val real | PosInf | NegInf | NaN

text \<open>
  The binary exponent of a positive real: the \<open>e\<close> with \<open>2^e \<le> x < 2^(e+1)\<close>, found by
  halving or doubling, and kept within the exponent range of binary64 (a value below
  \<open>2^-1022\<close> is subnormal and has the exponent \<open>-1022\<close>).
\<close>

function expo_up :: "real \<Rightarrow> int \<Rightarrow> int" where
  "expo_up x e = (if 2 \<le> x \<and> e < 1024 then expo_up (x / 2) (e + 1) else e)"
  by pat_completeness auto
termination
  by (relation "measure (\<lambda>(x, e). nat (1024 - e))") auto

function expo_down :: "real \<Rightarrow> int \<Rightarrow> int" where
  "expo_down x e = (if x < 1 \<and> - 1022 < e then expo_down (2 * x) (e - 1) else e)"
  by pat_completeness auto
termination
  by (relation "measure (\<lambda>(x, e). nat (e + 1022))") auto

declare expo_up.simps [simp del] expo_down.simps [simp del]

definition exponent :: "real \<Rightarrow> int" where
  "exponent x = (if 1 \<le> x then expo_up x 0 else expo_down x 0)"

text \<open>The spacing of the binary64 values with exponent \<open>e\<close>: 53 significant bits.\<close>

definition ulp :: "int \<Rightarrow> real" where
  "ulp e = (if 52 \<le> e then 2 ^ nat (e - 52) else 1 / 2 ^ nat (52 - e))"

text \<open>The nearest integer, the even one of two at the same distance.\<close>

definition round_even :: "real \<Rightarrow> int" where
  "round_even m =
     (let f = \<lfloor>m\<rfloor>; d = m - of_int f
      in if d < 1 / 2 then f else if 1 / 2 < d then f + 1 else if even f then f else f + 1)"

definition round_double :: "real \<Rightarrow> Double_t" where
  "round_double x =
     (if x = 0 then Val 0
      else
        let u = ulp (exponent \<bar>x\<bar>);
            y = of_int (round_even (x / u)) * u
        in if 2 ^ 1024 \<le> \<bar>y\<bar> then (if 0 < x then PosInf else NegInf) else Val y)"

instantiation Double_t :: "{plus, minus, uminus, times, inverse, ord}"
begin

fun plus_Double_t :: "Double_t \<Rightarrow> Double_t \<Rightarrow> Double_t" where
  "plus_Double_t NaN y = NaN"
| "plus_Double_t x NaN = NaN"
| "plus_Double_t PosInf NegInf = NaN"
| "plus_Double_t NegInf PosInf = NaN"
| "plus_Double_t PosInf y = PosInf"
| "plus_Double_t x PosInf = PosInf"
| "plus_Double_t NegInf y = NegInf"
| "plus_Double_t x NegInf = NegInf"
| "plus_Double_t (Val a) (Val b) = round_double (a + b)"

fun uminus_Double_t :: "Double_t \<Rightarrow> Double_t" where
  "uminus_Double_t (Val a) = Val (- a)"
| "uminus_Double_t PosInf = NegInf"
| "uminus_Double_t NegInf = PosInf"
| "uminus_Double_t NaN = NaN"

definition minus_Double_t :: "Double_t \<Rightarrow> Double_t \<Rightarrow> Double_t" where
  "minus_Double_t x y = x + (- y)"

fun times_Double_t :: "Double_t \<Rightarrow> Double_t \<Rightarrow> Double_t" where
  "times_Double_t NaN y = NaN"
| "times_Double_t x NaN = NaN"
| "times_Double_t (Val a) (Val b) = round_double (a * b)"
| "times_Double_t (Val a) PosInf = (if a = 0 then NaN else if 0 < a then PosInf else NegInf)"
| "times_Double_t (Val a) NegInf = (if a = 0 then NaN else if 0 < a then NegInf else PosInf)"
| "times_Double_t PosInf (Val b) = (if b = 0 then NaN else if 0 < b then PosInf else NegInf)"
| "times_Double_t NegInf (Val b) = (if b = 0 then NaN else if 0 < b then NegInf else PosInf)"
| "times_Double_t PosInf PosInf = PosInf"
| "times_Double_t PosInf NegInf = NegInf"
| "times_Double_t NegInf PosInf = NegInf"
| "times_Double_t NegInf NegInf = PosInf"

fun divide_Double_t :: "Double_t \<Rightarrow> Double_t \<Rightarrow> Double_t" where
  "divide_Double_t NaN y = NaN"
| "divide_Double_t x NaN = NaN"
| "divide_Double_t (Val a) (Val b) =
     (if b = 0 then (if a = 0 then NaN else if 0 < a then PosInf else NegInf)
      else round_double (a / b))"
| "divide_Double_t (Val a) PosInf = Val 0"
| "divide_Double_t (Val a) NegInf = Val 0"
| "divide_Double_t PosInf (Val b) = (if 0 \<le> b then PosInf else NegInf)"
| "divide_Double_t NegInf (Val b) = (if 0 \<le> b then NegInf else PosInf)"
| "divide_Double_t x y = NaN"

definition inverse_Double_t :: "Double_t \<Rightarrow> Double_t" where
  "inverse_Double_t x = divide (Val 1) x"

fun less_eq_Double_t :: "Double_t \<Rightarrow> Double_t \<Rightarrow> bool" where
  "less_eq_Double_t NaN y = False"
| "less_eq_Double_t x NaN = False"
| "less_eq_Double_t NegInf y = True"
| "less_eq_Double_t x PosInf = True"
| "less_eq_Double_t PosInf y = False"
| "less_eq_Double_t x NegInf = False"
| "less_eq_Double_t (Val a) (Val b) = (a \<le> b)"

definition less_Double_t :: "Double_t \<Rightarrow> Double_t \<Rightarrow> bool" where
  "less_Double_t x y = (x \<le> y \<and> \<not> y \<le> x)"

instance ..

end

text \<open>
  The conversion of an \<^verbatim>\<open>Int_t\<close> operand in a mixed expression; every \<^verbatim>\<open>Int_t\<close> is a
  binary64 value.
\<close>

definition Double_of_Int :: "int \<Rightarrow> Double_t" where
  "Double_of_Int j = Val (of_int j)"


section \<open>Errors and loops\<close>

text \<open>
  \<^verbatim>\<open>assert\<close> aborts the program; an out-of-range \<^verbatim>\<open>operator[]\<close> on a vector, the overflow
  of a signed counter and the conversion of a value that does not fit the target integer
  type are undefined behaviour. Each is a result of its own.
\<close>

datatype error = AssertFailed | OutOfBounds | SignedOverflow | BadConversion

fun bindE :: "error + 'a \<Rightarrow> ('a \<Rightarrow> error + 'b) \<Rightarrow> error + 'b" where
  "bindE (Inl e) f = Inl e"
| "bindE (Inr x) f = f x"

text \<open>
  \<^verbatim>\<open>for (i = first; i < end; ++i) body\<close> runs the body for each index in turn, on the state
  left by the previous iteration, and stops at the first failure.
\<close>

fun for_each :: "'i list \<Rightarrow> ('i \<Rightarrow> 's \<Rightarrow> error + 's) \<Rightarrow> 's \<Rightarrow> error + 's" where
  "for_each [] body s = Inr s"
| "for_each (i # is) body s = bindE (body i s) (for_each is body)"


section \<open>The integrand and the integrator state\<close>

text \<open>
  The integrand interface \<^verbatim>\<open>RooAbsFunc\<close> is declared outside the two source files; the
  integrator uses its dimension, its limits, its optional bin boundaries (a null pointer when
  it has none), its validity flag and its value at a coordinate vector.
\<close>

record RooAbsFunc =
  getDimension :: nat
  getMinLimit :: "nat \<Rightarrow> Double_t"
  getMaxLimit :: "nat \<Rightarrow> Double_t"
  binBoundaries :: "nat \<Rightarrow> Double_t list option"
  isValid :: bool
  eval :: "Double_t list \<Rightarrow> Double_t"

text \<open>
  The base class \<^verbatim>\<open>RooAbsIntegrator\<close> holds the integrand (\<^verbatim>\<open>_function\<close>, read through
  \<^verbatim>\<open>integrand()\<close>) and the flag \<^verbatim>\<open>isValid()\<close> reports. Its constructor runs before the
  body of a \<^verbatim>\<open>RooBinIntegrator\<close> constructor, which therefore starts from a base object.
  The scratch buffer \<^verbatim>\<open>_x\<close> only carries the coordinates of one evaluation to the integrand
  and is not part of the state.
\<close>

record RooAbsIntegrator =
  integrand :: RooAbsFunc
  valid :: bool

record RooBinIntegrator = RooAbsIntegrator +
  useIntegrandLimits :: bool
  numBins :: int
  xmin :: "Double_t list"
  xmax :: "Double_t list"
  binb :: "Double_t list list"


section \<open>integral\<close>

text \<open>
  \<^verbatim>\<open>binb.size() - 1\<close> is unsigned: for an empty row it wraps around, the loop is entered
  and its first iteration reads \<^verbatim>\<open>binb[1]\<close> out of range. For a row with at least one
  entry the loop bound keeps \<^verbatim>\<open>ibin + 1\<close> in range.
\<close>

definition bin_loop ::
  "Double_t list \<Rightarrow> (Double_t \<Rightarrow> Double_t \<Rightarrow> 's \<Rightarrow> error + 's) \<Rightarrow> 's \<Rightarrow> error + 's" where
  "bin_loop row body s =
     (if row = [] then Inl OutOfBounds
      else for_each [0..<length row - 1] (\<lambda>ibin. body (row ! (ibin + 1)) (row ! ibin)) s)"

definition sum1D :: "RooBinIntegrator \<Rightarrow> Double_t \<Rightarrow> error + Double_t" where
  "sum1D s sum0 =
     (if length (binb s) < 1 then Inl OutOfBounds
      else bin_loop (binb s ! 0) (\<lambda>xhi xlo sum.
        let xcenter = (xhi + xlo) / Val 2;
            binInt = eval (integrand s) [xcenter] * (xhi - xlo)
        in Inr (sum + binInt)) sum0)"

definition sum2D :: "RooBinIntegrator \<Rightarrow> Double_t \<Rightarrow> error + Double_t" where
  "sum2D s sum0 =
     (if length (binb s) < 2 then Inl OutOfBounds
      else bin_loop (binb s ! 0) (\<lambda>x1hi x1lo.
        let x1center = (x1hi + x1lo) / Val 2
        in bin_loop (binb s ! 1) (\<lambda>x2hi x2lo sum.
          let x2center = (x2hi + x2lo) / Val 2;
              binInt = eval (integrand s) [x1center, x2center] * (x1hi - x1lo) * (x2hi - x2lo)
          in Inr (sum + binInt))) sum0)"

definition sum3D :: "RooBinIntegrator \<Rightarrow> Double_t \<Rightarrow> error + Double_t" where
  "sum3D s sum0 =
     (if length (binb s) < 3 then Inl OutOfBounds
      else bin_loop (binb s ! 0) (\<lambda>x1hi x1lo.
        let x1center = (x1hi + x1lo) / Val 2
        in bin_loop (binb s ! 1) (\<lambda>x2hi x2lo.
          let x2center = (x2hi + x2lo) / Val 2
          in bin_loop (binb s ! 2) (\<lambda>x3hi x3lo sum.
            let x3center = (x3hi + x3lo) / Val 2;
                binInt = eval (integrand s) [x1center, x2center, x3center]
                           * (x1hi - x1lo) * (x2hi - x2lo) * (x3hi - x3lo)
            in Inr (sum + binInt)))) sum0)"

definition integral :: "RooBinIntegrator \<Rightarrow> error + Double_t" where
  "integral s =
     (if \<not> valid s then Inl AssertFailed
      else
        bindE (if getDimension (integrand s) = 1 then sum1D s (Val 0) else Inr (Val 0)) (\<lambda>sum.
        bindE (if getDimension (integrand s) = 2 then sum2D s sum else Inr sum) (\<lambda>sum.
        bindE (if getDimension (integrand s) = 3 then sum3D s sum else Inr sum) Inr)))"


section \<open>checkLimits and setLimits\<close>

text \<open>
  Modelled from the spec: \<^verbatim>\<open>RooNumber::isInfinite\<close> is defined outside the source files.
  The specification describes the test \<^verbatim>\<open>checkLimits\<close> makes with it as "either bound is
  non-finite", so it holds of the two infinities and of NaN.
\<close>

fun RooNumber_isInfinite :: "Double_t \<Rightarrow> bool" where
  "RooNumber_isInfinite (Val r) = False"
| "RooNumber_isInfinite x = True"

text \<open>\<^verbatim>\<open>std::vector::resize\<close>: keeps the first \<open>n\<close> entries and pads with zeros.\<close>

definition resize :: "nat \<Rightarrow> Double_t list \<Rightarrow> Double_t list" where
  "resize n xs = take n xs @ replicate (n - length xs) (Val 0)"

text \<open>The first block of \<^verbatim>\<open>checkLimits\<close>: the limits are fetched from the integrand again.\<close>

definition update_limits :: "RooBinIntegrator \<Rightarrow> error + RooBinIntegrator" where
  "update_limits s =
     (let f = integrand s in
      if \<not> isValid f then Inl AssertFailed
      else for_each [0..<getDimension f]
             (\<lambda>i s. if i < length (xmin s) \<and> i < length (xmax s)
                    then Inr (s\<lparr>xmin := (xmin s)[i := getMinLimit f i],
                                xmax := (xmax s)[i := getMaxLimit f i]\<rparr>)
                    else Inl OutOfBounds)
             (s\<lparr>xmin := resize (getDimension f) (xmin s),
                xmax := resize (getDimension f) (xmax s)\<rparr>))"

text \<open>The second loop of \<^verbatim>\<open>checkLimits\<close> returns at the first dimension that fails a test.\<close>

fun check_range :: "Double_t list \<Rightarrow> Double_t list \<Rightarrow> nat list \<Rightarrow> error + bool" where
  "check_range mins maxs [] = Inr True"
| "check_range mins maxs (i # is) =
     (if \<not> (i < length maxs \<and> i < length mins) then Inl OutOfBounds
      else if maxs ! i \<le> mins ! i then Inr False
      else if RooNumber_isInfinite (mins ! i) \<or> RooNumber_isInfinite (maxs ! i) then Inr False
      else check_range mins maxs is)"

text \<open>
  \<^verbatim>\<open>checkLimits\<close> is a const member, but \<^verbatim>\<open>_xmin\<close> and \<^verbatim>\<open>_xmax\<close> are mutable: it returns
  its verdict together with the state it leaves.
\<close>

definition checkLimits :: "RooBinIntegrator \<Rightarrow> error + (bool \<times> RooBinIntegrator)" where
  "checkLimits s =
     bindE (if useIntegrandLimits s then update_limits s else Inr s) (\<lambda>s'.
     bindE (check_range (xmin s') (xmax s') [0..<getDimension (integrand s')]) (\<lambda>ok.
     Inr (ok, s')))"

definition setLimits ::
  "RooBinIntegrator \<Rightarrow> Double_t \<Rightarrow> Double_t \<Rightarrow> error + (bool \<times> RooBinIntegrator)" where
  "setLimits s newMin newMax =
     (if useIntegrandLimits s then Inr (False, s)
      else if xmin s = [] \<or> xmax s = [] then Inl OutOfBounds
      else checkLimits (s\<lparr>xmin := (xmin s)[0 := newMin], xmax := (xmax s)[0 := newMax]\<rparr>))"


section \<open>Construction\<close>

text \<open>The \<open>j\<close>-th boundary of the substitute binning, as the constructors compute it.\<close>

definition uniform_boundary :: "Double_t \<Rightarrow> Double_t \<Rightarrow> int \<Rightarrow> int \<Rightarrow> Double_t" where
  "uniform_boundary lo hi n j = lo + Double_of_Int j * (hi - lo) / Double_of_Int n"

text \<open>
  \<^verbatim>\<open>for (Int_t j=0 ; j<=_numBins ; j++)\<close>: when \<^verbatim>\<open>_numBins\<close> is the largest \<^verbatim>\<open>Int_t\<close> the
  condition never fails and the increment overflows.
\<close>

definition default_binning ::
  "Double_t list \<Rightarrow> Double_t list \<Rightarrow> nat \<Rightarrow> int \<Rightarrow> error + Double_t list" where
  "default_binning mins maxs i n =
     for_each [0..n]
       (\<lambda>j tmp. if \<not> (i < length mins \<and> i < length maxs) then Inl OutOfBounds
                else if j = 2147483647 then Inl SignedOverflow
                else Inr (tmp @ [uniform_boundary (mins ! i) (maxs ! i) n j]))
       []"

text \<open>
  Both constructors retrieve the bin configuration of dimension \<open>i\<close> with the same
  statements: the integrand's boundaries when it returns a list, the substitute binning when
  it returns a null pointer; the list is appended to \<^verbatim>\<open>_binb\<close> as it is.
\<close>

definition store_binning :: "nat \<Rightarrow> RooBinIntegrator \<Rightarrow> error + RooBinIntegrator" where
  "store_binning i s =
     bindE (case binBoundaries (integrand s) i of
              Some tmp \<Rightarrow> Inr tmp
            | None \<Rightarrow> default_binning (xmin s) (xmax s) i (numBins s))
       (\<lambda>tmp. Inr (s\<lparr>binb := binb s @ [tmp]\<rparr>))"

definition ctor_body :: "nat \<Rightarrow> RooBinIntegrator \<Rightarrow> error + RooBinIntegrator" where
  "ctor_body i s =
     (if i < length (xmin s) \<and> i < length (xmax s)
      then store_binning i (s\<lparr>xmin := (xmin s)[i := getMinLimit (integrand s) i],
                              xmax := (xmax s)[i := getMaxLimit (integrand s) i]\<rparr>)
      else Inl OutOfBounds)"

text \<open>
  The constructor on a function binding. The result of the final \<^verbatim>\<open>checkLimits\<close> is
  dropped; the state it leaves is kept.
\<close>

definition RooBinIntegrator_ctor :: "RooAbsIntegrator \<Rightarrow> error + RooBinIntegrator" where
  "RooBinIntegrator_ctor base =
     (let f = integrand base in
      if \<not> isValid f then Inl AssertFailed
      else
        bindE (for_each [0..<getDimension f] ctor_body
                 \<lparr>integrand = f, valid = valid base, useIntegrandLimits = True, numBins = 100,
                  xmin = resize (getDimension f) [], xmax = resize (getDimension f) [],
                  binb = []\<rparr>) (\<lambda>s.
        bindE (checkLimits s) (\<lambda>r. Inr (snd r))))"

text \<open>
  The options bundle: \<^verbatim>\<open>getConfigSection\<close> maps a method name to a set of named values, which
  \<^verbatim>\<open>getRealValue\<close> reads. Both classes are declared outside the source files and are taken
  as these two lookups. \<^verbatim>\<open>IsA()->GetName()\<close> is the class name.
\<close>

type_synonym RooArgSet = "string \<Rightarrow> Double_t"

type_synonym RooNumIntConfig = "string \<Rightarrow> RooArgSet"

text \<open>
  The cast \<^verbatim>\<open>(Int_t)\<close> truncates towards zero; a value outside the range of \<^verbatim>\<open>Int_t\<close>,
  an infinity or NaN has no defined conversion.
\<close>

definition Int_of_Double :: "Double_t \<Rightarrow> error + int" where
  "Int_of_Double x =
     (case x of
        Val r \<Rightarrow>
          (let t = (if 0 \<le> r then \<lfloor>r\<rfloor> else \<lceil>r\<rceil>)
           in if - 2147483648 \<le> t \<and> t \<le> 2147483647 then Inr t else Inl BadConversion)
      | _ \<Rightarrow> Inl BadConversion)"

definition ctor_config_body :: "nat \<Rightarrow> RooBinIntegrator \<Rightarrow> error + RooBinIntegrator" where
  "ctor_config_body i s =
     store_binning i (s\<lparr>xmin := xmin s @ [getMinLimit (integrand s) i],
                        xmax := xmax s @ [getMaxLimit (integrand s) i]\<rparr>)"

definition RooBinIntegrator_ctor_config ::
  "RooAbsIntegrator \<Rightarrow> RooNumIntConfig \<Rightarrow> error + RooBinIntegrator" where
  "RooBinIntegrator_ctor_config base config =
     (let f = integrand base; configSet = config ''RooBinIntegrator'' in
      bindE (Int_of_Double (configSet ''numBins'')) (\<lambda>n.
      if \<not> isValid f then Inl AssertFailed
      else
        bindE (for_each [0..<getDimension f] ctor_config_body
                 \<lparr>integrand = f, valid = valid base, useIntegrandLimits = True, numBins = n,
                  xmin = [], xmax = [], binb = []\<rparr>) (\<lambda>s.
        bindE (checkLimits s) (\<lambda>r. Inr (snd r)))))"


section \<open>The specification's terms\<close>

text \<open>
  The bins of a boundary sequence are its pairs of neighbours \<open>(boundary[k], boundary[k+1])\<close>.
  The midpoint of a bin is \<open>(boundary[k] + boundary[k+1]) / 2\<close>, its width is
  \<open>boundary[k+1] - boundary[k]\<close>.
\<close>

definition bins :: "Double_t list \<Rightarrow> (Double_t \<times> Double_t) list" where
  "bins bs = zip bs (tl bs)"

definition midpoint :: "Double_t \<times> Double_t \<Rightarrow> Double_t" where
  "midpoint b = (fst b + snd b) / Val 2"

definition bin_width :: "Double_t \<times> Double_t \<Rightarrow> Double_t" where
  "bin_width b = snd b - fst b"

text \<open>
  The contribution of one combination of bins: the integrand at the midpoints, multiplied by
  the width of the bin in each dimension in turn.
\<close>

definition bin_term1 :: "RooAbsFunc \<Rightarrow> Double_t \<times> Double_t \<Rightarrow> Double_t" where
  "bin_term1 f b = eval f [midpoint b] * bin_width b"

definition bin_term2 ::
  "RooAbsFunc \<Rightarrow> Double_t \<times> Double_t \<Rightarrow> Double_t \<times> Double_t \<Rightarrow> Double_t" where
  "bin_term2 f b1 b2 = eval f [midpoint b1, midpoint b2] * bin_width b1 * bin_width b2"

definition bin_term3 ::
  "RooAbsFunc \<Rightarrow> Double_t \<times> Double_t \<Rightarrow> Double_t \<times> Double_t \<Rightarrow> Double_t \<times> Double_t
     \<Rightarrow> Double_t" where
  "bin_term3 f b1 b2 b3 =
     eval f [midpoint b1, midpoint b2, midpoint b3] * bin_width b1 * bin_width b2 * bin_width b3"

text \<open>
  The sum over all combinations of bins, added to zero one after the other with the bins of
  dimension 0 varying slowest.
\<close>

definition midpoint_sum1 :: "RooAbsFunc \<Rightarrow> Double_t list \<Rightarrow> Double_t" where
  "midpoint_sum1 f bx = foldl (+) (Val 0) [bin_term1 f b. b \<leftarrow> bins bx]"

definition midpoint_sum2 :: "RooAbsFunc \<Rightarrow> Double_t list \<Rightarrow> Double_t list \<Rightarrow> Double_t" where
  "midpoint_sum2 f bx by = foldl (+) (Val 0) [bin_term2 f b1 b2. b1 \<leftarrow> bins bx, b2 \<leftarrow> bins by]"

definition midpoint_sum3 ::
  "RooAbsFunc \<Rightarrow> Double_t list \<Rightarrow> Double_t list \<Rightarrow> Double_t list \<Rightarrow> Double_t" where
  "midpoint_sum3 f bx by bz =
     foldl (+) (Val 0) [bin_term3 f b1 b2 b3. b1 \<leftarrow> bins bx, b2 \<leftarrow> bins by, b3 \<leftarrow> bins bz]"

text \<open>The sum for the integrand's dimension; no bins are summed outside one to three dimensions.\<close>

definition midpoint_sum :: "RooAbsFunc \<Rightarrow> Double_t list list \<Rightarrow> Double_t" where
  "midpoint_sum f tbl =
     (if getDimension f = 1 then midpoint_sum1 f (tbl ! 0)
      else if getDimension f = 2 then midpoint_sum2 f (tbl ! 0) (tbl ! 1)
      else if getDimension f = 3 then midpoint_sum3 f (tbl ! 0) (tbl ! 1) (tbl ! 2)
      else Val 0)"

text \<open>
  The row of the bin table for dimension \<open>i\<close>: the integrand's own boundaries when it has
  them, else the boundaries \<open>min + j * (max - min) / numBins\<close> for \<open>j = 0, \<dots>, numBins\<close>.
\<close>

definition binning_of :: "RooAbsFunc \<Rightarrow> int \<Rightarrow> nat \<Rightarrow> Double_t list" where
  "binning_of f n i =
     (case binBoundaries f i of
        Some bs \<Rightarrow> bs
      | None \<Rightarrow> map (uniform_boundary (getMinLimit f i) (getMaxLimit f i) n) [0..n])"

text \<open>
  The integrator for a bin count \<open>n\<close>: limits fetched from the integrand, one row of the bin
  table per dimension, limits marked as the integrand's.
\<close>

definition built :: "RooAbsIntegrator \<Rightarrow> int \<Rightarrow> RooBinIntegrator" where
  "built base n =
     (let f = integrand base; dims = [0..<getDimension f] in
      \<lparr>integrand = f, valid = valid base, useIntegrandLimits = True, numBins = n,
       xmin = map (getMinLimit f) dims, xmax = map (getMaxLimit f) dims,
       binb = map (binning_of f n) dims\<rparr>)"


section \<open>Integer bin boundaries\<close>

text \<open>
  A bin between two integer boundaries: its extent, and the pair of \<^verbatim>\<open>Double_t\<close> values
  that stands for it in a bin table.
\<close>

definition bin_extent :: "int \<times> int \<Rightarrow> int" where
  "bin_extent p = snd p - fst p"

definition Val_pair :: "int \<times> int \<Rightarrow> Double_t \<times> Double_t" where
  "Val_pair p = (Val (of_int (fst p)), Val (of_int (snd p)))"


section \<open>Example inputs\<close>

text \<open>
  Three answers an integrand can give for its bin boundaries; an integrand on \<open>[0, 7]\<close> in
  each of its \<open>d\<close> dimensions whose value is the product of its coordinates; an integrator
  state holding a given bin table for it; an options bundle that reads as \<open>v\<close> everywhere.
\<close>

definition no_binning :: "nat \<Rightarrow> Double_t list option" where
  "no_binning i = None"

definition empty_binning :: "nat \<Rightarrow> Double_t list option" where
  "empty_binning i = Some []"

definition example_binning :: "nat \<Rightarrow> Double_t list option" where
  "example_binning i = Some [Val 0, Val 1, Val 3, Val 7]"

definition example_func :: "nat \<Rightarrow> (nat \<Rightarrow> Double_t list option) \<Rightarrow> RooAbsFunc" where
  "example_func d bb =
     \<lparr>getDimension = d, getMinLimit = (\<lambda>i. Val 0), getMaxLimit = (\<lambda>i. Val 7),
      binBoundaries = bb, isValid = True, eval = foldl (*) (Val 1)\<rparr>"

definition example_base :: "nat \<Rightarrow> (nat \<Rightarrow> Double_t list option) \<Rightarrow> RooAbsIntegrator" where
  "example_base d bb = \<lparr>integrand = example_func d bb, valid = True\<rparr>"

definition example_state :: "nat \<Rightarrow> bool \<Rightarrow> Double_t list list \<Rightarrow> RooBinIntegrator" where
  "example_state d u tbl =
     \<lparr>integrand = example_func d no_binning, valid = True, useIntegrandLimits = u,
      numBins = 100, xmin = replicate d (Val 0), xmax = replicate d (Val 7), binb = tbl\<rparr>"

definition example_config :: "Double_t \<Rightarrow> RooNumIntConfig" where
  "example_config v = (\<lambda>method name. v)"

text \<open>
  An integrand with the constant value \<open>c\<close> on \<open>[lo, hi]\<close> in each of its \<open>d\<close> dimensions,
  without bin boundaries of its own, and an integrator state holding a given bin table for it.
\<close>

definition constant_func :: "nat \<Rightarrow> Double_t \<Rightarrow> Double_t \<Rightarrow> Double_t \<Rightarrow> RooAbsFunc" where
  "constant_func d c lo hi =
     \<lparr>getDimension = d, getMinLimit = (\<lambda>i. lo), getMaxLimit = (\<lambda>i. hi),
      binBoundaries = no_binning, isValid = True, eval = (\<lambda>x. c)\<rparr>"

definition constant_base :: "nat \<Rightarrow> Double_t \<Rightarrow> Double_t \<Rightarrow> Double_t \<Rightarrow> RooAbsIntegrator" where
  "constant_base d c lo hi = \<lparr>integrand = constant_func d c lo hi, valid = True\<rparr>"

definition constant_state ::
  "nat \<Rightarrow> Double_t \<Rightarrow> Double_t \<Rightarrow> Double_t \<Rightarrow> Double_t list list \<Rightarrow> RooBinIntegrator" where
  "constant_state d c lo hi tbl =
     \<lparr>integrand = constant_func d c lo hi, valid = True, useIntegrandLimits = True,
      numBins = 100, xmin = replicate d lo, xmax = replicate d hi, binb = tbl\<rparr>"


section \<open>Loops\<close>

lemma bindE_Inr [simp]: "bindE m Inr = m"
  by (cases m) simp_all

lemma for_each_single [simp]: "for_each [i] body s = body i s"
  by (cases "body i s") simp_all

lemma for_each_append:
  "for_each (xs @ ys) body s = bindE (for_each xs body s) (for_each ys body)"
proof (induction xs arbitrary: s)
  case Nil
  show ?case by simp
next
  case (Cons i xs)
  show ?case by (cases "body i s") (simp_all add: Cons.IH)
qed

lemma for_each_pure:
  "(\<And>i s. i \<in> set xs \<Longrightarrow> body i s = Inr (g i s)) \<Longrightarrow> for_each xs body s = Inr (fold g xs s)"
  by (induction xs arbitrary: s) simp_all

lemma bins_conv_nth:
  "map (\<lambda>i. (row ! i, row ! Suc i)) [0..<length row - Suc 0] = bins row"
  unfolding bins_def
  by (rule nth_equalityI) (auto simp: nth_tl)

lemma bin_loop_pure:
  assumes "row \<noteq> []" and "\<And>hi lo s. body hi lo s = Inr (g hi lo s)"
  shows "bin_loop row body s = Inr (fold (\<lambda>b. g (snd b) (fst b)) (bins row) s)"
proof -
  have "for_each [0..<length row - 1] (\<lambda>ibin. body (row ! (ibin + 1)) (row ! ibin)) s
        = Inr (fold (\<lambda>ibin. g (row ! (ibin + 1)) (row ! ibin)) [0..<length row - 1] s)"
    by (rule for_each_pure) (simp add: assms(2))
  also have "fold (\<lambda>ibin. g (row ! (ibin + 1)) (row ! ibin)) [0..<length row - 1] s
        = fold (\<lambda>b. g (snd b) (fst b)) (map (\<lambda>i. (row ! i, row ! (i + 1))) [0..<length row - 1]) s"
    by (simp add: fold_map comp_def)
  finally show ?thesis
    using assms(1) by (simp add: bin_loop_def bins_conv_nth)
qed

lemma fold_add_foldl:
  "fold (\<lambda>b (sum::Double_t). sum + t b) bs s0 = foldl (+) s0 (map t bs)"
  by (induction bs arbitrary: s0) simp_all

lemma fold_foldl_concat:
  "fold (\<lambda>b (s::Double_t). foldl (+) s (L b)) xs s0 = foldl (+) s0 (concat (map L xs))"
  by (induction xs arbitrary: s0) simp_all

lemma fold_add_foldl_fun:
  "fold (\<lambda>b (sum::Double_t). sum + t b) bs = (\<lambda>s0. foldl (+) s0 (map t bs))"
  by (rule ext) (rule fold_add_foldl)

lemma fold_foldl_concat_fun:
  "fold (\<lambda>b (s::Double_t). foldl (+) s (L b)) xs = (\<lambda>s0. foldl (+) s0 (concat (map L xs)))"
  by (rule ext) (rule fold_foldl_concat)

lemma plus_Double_t_commute: "(x::Double_t) + y = y + x"
  by (cases x; cases y) (simp_all add: add.commute)



section \<open>The summation loops\<close>

lemma midpoint_code: "(hi + lo) / Val 2 = midpoint (lo, hi)"
  by (simp add: midpoint_def plus_Double_t_commute)

lemma bin_width_code: "hi - lo = bin_width (lo, hi)"
  by (simp add: bin_width_def)

lemma sum1D_eq:
  assumes "1 \<le> length (binb s)" and "binb s ! 0 \<noteq> []"
  shows "sum1D s s0 = Inr (foldl (+) s0 [bin_term1 (integrand s) b. b \<leftarrow> bins (binb s ! 0)])"
proof -
  have "binb s \<noteq> []"
    using assms(1) by auto
  then have "sum1D s s0 = bin_loop (binb s ! 0)
          (\<lambda>xhi xlo sum. Inr (sum + bin_term1 (integrand s) (xlo, xhi))) s0"
    by (simp add: sum1D_def bin_term1_def Let_def midpoint_code bin_width_code)
  also have "\<dots> = Inr (fold (\<lambda>b sum. sum + bin_term1 (integrand s) b) (bins (binb s ! 0)) s0)"
    by (subst bin_loop_pure [OF assms(2), where g = "\<lambda>hi lo sum. sum + bin_term1 (integrand s) (lo, hi)"])
       simp_all
  finally show ?thesis
    by (simp add: fold_add_foldl)
qed

lemma sum2D_eq:
  assumes "2 \<le> length (binb s)" and "binb s ! 0 \<noteq> []" and "binb s ! 1 \<noteq> []"
  shows "sum2D s s0 =
         Inr (foldl (+) s0 [bin_term2 (integrand s) b1 b2.
                              b1 \<leftarrow> bins (binb s ! 0), b2 \<leftarrow> bins (binb s ! 1)])"
proof -
  let ?f = "integrand s"
  have inner: "bin_loop (binb s ! 1) (\<lambda>x2hi x2lo sum. Inr (sum + bin_term2 ?f (x1lo, x1hi) (x2lo, x2hi))) sum
        = Inr (fold (\<lambda>b2 sum. sum + bin_term2 ?f (x1lo, x1hi) b2) (bins (binb s ! 1)) sum)"
    for x1hi x1lo sum
    by (subst bin_loop_pure [OF assms(3),
          where g = "\<lambda>hi lo sum. sum + bin_term2 ?f (x1lo, x1hi) (lo, hi)"]) simp_all
  have "\<not> length (binb s) < 2"
    using assms(1) by simp
  then have "sum2D s s0 = bin_loop (binb s ! 0)
          (\<lambda>x1hi x1lo. bin_loop (binb s ! 1)
             (\<lambda>x2hi x2lo sum. Inr (sum + bin_term2 ?f (x1lo, x1hi) (x2lo, x2hi)))) s0"
    by (simp add: sum2D_def bin_term2_def Let_def midpoint_code bin_width_code)
  also have "\<dots> = Inr (fold (\<lambda>b1. fold (\<lambda>b2 sum. sum + bin_term2 ?f b1 b2) (bins (binb s ! 1)))
                        (bins (binb s ! 0)) s0)"
    using bin_loop_pure [OF assms(2),
          where g = "\<lambda>hi lo. fold (\<lambda>b2 sum. sum + bin_term2 ?f (lo, hi) b2) (bins (binb s ! 1))",
          OF inner]
    by simp
  finally show ?thesis
    by (simp add: fold_add_foldl_fun fold_foldl_concat_fun)
qed

lemma sum3D_eq:
  assumes "3 \<le> length (binb s)"
    and "binb s ! 0 \<noteq> []" and "binb s ! 1 \<noteq> []" and "binb s ! 2 \<noteq> []"
  shows "sum3D s s0 =
         Inr (foldl (+) s0 [bin_term3 (integrand s) b1 b2 b3.
                b1 \<leftarrow> bins (binb s ! 0), b2 \<leftarrow> bins (binb s ! 1), b3 \<leftarrow> bins (binb s ! 2)])"
proof -
  let ?f = "integrand s"
  let ?g3 = "\<lambda>b1 b2 b3 (sum::Double_t). sum + bin_term3 ?f b1 b2 b3"
  let ?g2 = "\<lambda>b1 b2. fold (?g3 b1 b2) (bins (binb s ! 2))"
  let ?g1 = "\<lambda>b1. fold (?g2 b1) (bins (binb s ! 1))"
  have inner: "bin_loop (binb s ! 2) (\<lambda>x3hi x3lo sum. Inr (?g3 b1 (x2lo, x2hi) (x3lo, x3hi) sum)) sum
        = Inr (?g2 b1 (x2lo, x2hi) sum)"
    for b1 x2hi x2lo sum
    using bin_loop_pure [OF assms(4), where g = "\<lambda>hi lo. ?g3 b1 (x2lo, x2hi) (lo, hi)"]
    by simp
  have middle: "bin_loop (binb s ! 1) (\<lambda>x2hi x2lo. bin_loop (binb s ! 2)
                  (\<lambda>x3hi x3lo sum. Inr (?g3 (x1lo, x1hi) (x2lo, x2hi) (x3lo, x3hi) sum))) sum
        = Inr (?g1 (x1lo, x1hi) sum)"
    for x1hi x1lo sum
    using bin_loop_pure [OF assms(3), where g = "\<lambda>hi lo. ?g2 (x1lo, x1hi) (lo, hi)", OF inner]
    by simp
  have "\<not> length (binb s) < 3"
    using assms(1) by simp
  then have "sum3D s s0 = bin_loop (binb s ! 0)
          (\<lambda>x1hi x1lo. bin_loop (binb s ! 1) (\<lambda>x2hi x2lo. bin_loop (binb s ! 2)
             (\<lambda>x3hi x3lo sum. Inr (?g3 (x1lo, x1hi) (x2lo, x2hi) (x3lo, x3hi) sum)))) s0"
    by (simp add: sum3D_def bin_term3_def Let_def midpoint_code bin_width_code)
  also have "\<dots> = Inr (fold ?g1 (bins (binb s ! 0)) s0)"
    using bin_loop_pure [OF assms(2), where g = "\<lambda>hi lo. ?g1 (lo, hi)", OF middle]
    by simp
  finally show ?thesis
    by (simp add: fold_add_foldl_fun fold_foldl_concat_fun)
qed


section \<open>The constructors and the limit check\<close>

lemma fold_snoc_map: "fold (\<lambda>j tmp. tmp @ [h j]) js acc = acc @ map h js"
  by (induction js arbitrary: acc) simp_all

lemma default_binning_eq:
  assumes "n < 2147483647" and "i < length mins" and "i < length maxs"
  shows "default_binning mins maxs i n = Inr (map (uniform_boundary (mins ! i) (maxs ! i) n) [0..n])"
proof -
  have "default_binning mins maxs i n
        = Inr (fold (\<lambda>j tmp. tmp @ [uniform_boundary (mins ! i) (maxs ! i) n j]) [0..n] [])"
    unfolding default_binning_def
    by (rule for_each_pure) (use assms in auto)
  then show ?thesis
    by (simp add: fold_snoc_map)
qed

lemma fill_step:
  assumes "k < length xs"
  shows "(map g [0..<k] @ drop k xs)[k := g k] = map g [0..<Suc k] @ drop (Suc k) xs"
proof -
  have "drop k xs = xs ! k # drop (Suc k) xs"
    using assms by (simp add: Cons_nth_drop_Suc)
  then show ?thesis
    by (simp add: list_update_append)
qed

lemma store_binning_eq:
  assumes "numBins s < 2147483647" and "i < length (xmin s)" and "i < length (xmax s)"
    and "xmin s ! i = getMinLimit (integrand s) i" and "xmax s ! i = getMaxLimit (integrand s) i"
  shows "store_binning i s = Inr (s\<lparr>binb := binb s @ [binning_of (integrand s) (numBins s) i]\<rparr>)"
  using assms
  by (simp add: store_binning_def binning_of_def default_binning_eq split: option.split)

lemma ctor_loop:
  assumes "n < 2147483647" and "k \<le> getDimension f" and "length mins = getDimension f"
    and "length maxs = getDimension f"
  shows "for_each [0..<k] ctor_body
           \<lparr>integrand = f, valid = v, useIntegrandLimits = u, numBins = n,
            xmin = mins, xmax = maxs, binb = []\<rparr>
         = Inr \<lparr>integrand = f, valid = v, useIntegrandLimits = u, numBins = n,
               xmin = map (getMinLimit f) [0..<k] @ drop k mins,
               xmax = map (getMaxLimit f) [0..<k] @ drop k maxs,
               binb = map (binning_of f n) [0..<k]\<rparr>"
    (is "for_each _ _ ?s0 = Inr (?st k)")
  using assms(2)
proof (induction k)
  case 0
  show ?case by simp
next
  case (Suc k)
  then have k: "k < length mins" "k < length maxs"
    using assms(3,4) by simp_all
  have "k \<le> getDimension f"
    using Suc.prems by simp
  note IH = Suc.IH [OF this]
  have "for_each [0..<Suc k] ctor_body ?s0
        = bindE (for_each [0..<k] ctor_body ?s0) (for_each [k] ctor_body)"
    by (simp add: for_each_append)
  also have "\<dots> = ctor_body k (?st k)"
    by (simp only: IH bindE.simps for_each_single)
  also have "\<dots> = store_binning k ((?st k)\<lparr>xmin := map (getMinLimit f) [0..<Suc k] @ drop (Suc k) mins,
                                            xmax := map (getMaxLimit f) [0..<Suc k] @ drop (Suc k) maxs\<rparr>)"
    using k by (simp add: ctor_body_def fill_step del: upt_Suc)
  also have "\<dots> = Inr (?st (Suc k))"
    using k assms(1) by (subst store_binning_eq) (simp_all add: nth_append)
  finally show ?case .
qed

lemma ctor_config_loop:
  assumes "n < 2147483647"
  shows "for_each [0..<k] ctor_config_body
           \<lparr>integrand = f, valid = v, useIntegrandLimits = u, numBins = n,
            xmin = [], xmax = [], binb = []\<rparr>
         = Inr \<lparr>integrand = f, valid = v, useIntegrandLimits = u, numBins = n,
               xmin = map (getMinLimit f) [0..<k],
               xmax = map (getMaxLimit f) [0..<k],
               binb = map (binning_of f n) [0..<k]\<rparr>"
    (is "for_each _ _ ?s0 = Inr (?st k)")
proof (induction k)
  case 0
  show ?case by simp
next
  case (Suc k)
  have "for_each [0..<Suc k] ctor_config_body ?s0
        = bindE (for_each [0..<k] ctor_config_body ?s0) (for_each [k] ctor_config_body)"
    by (simp add: for_each_append)
  also have "\<dots> = ctor_config_body k (?st k)"
    by (simp only: Suc.IH bindE.simps for_each_single)
  also have "\<dots> = store_binning k ((?st k)\<lparr>xmin := map (getMinLimit f) [0..<Suc k],
                                            xmax := map (getMaxLimit f) [0..<Suc k]\<rparr>)"
    by (simp add: ctor_config_body_def)
  also have "\<dots> = Inr (?st (Suc k))"
    using assms by (subst store_binning_eq) (simp_all add: nth_append)
  finally show ?case .
qed

lemma length_resize [simp]: "length (resize n xs) = n"
  by (simp add: resize_def)

lemma update_limits_loop:
  fixes s :: RooBinIntegrator
  assumes "k \<le> length (xmin s)" and "length (xmax s) = length (xmin s)"
  shows "for_each [0..<k]
           (\<lambda>i s. if i < length (xmin s) \<and> i < length (xmax s)
                  then Inr (s\<lparr>xmin := (xmin s)[i := gmin i], xmax := (xmax s)[i := gmax i]\<rparr>)
                  else Inl OutOfBounds) s
         = Inr (s\<lparr>xmin := map gmin [0..<k] @ drop k (xmin s),
                   xmax := map gmax [0..<k] @ drop k (xmax s)\<rparr>)"
    (is "for_each _ ?body _ = Inr (?st k)")
  using assms(1)
proof (induction k)
  case 0
  show ?case by simp
next
  case (Suc k)
  then have k: "k < length (xmin s)" "k < length (xmax s)"
    using assms(2) by simp_all
  have "k \<le> length (xmin s)"
    using Suc.prems by simp
  note IH = Suc.IH [OF this]
  have "for_each [0..<Suc k] ?body s = bindE (for_each [0..<k] ?body s) (for_each [k] ?body)"
    by (simp add: for_each_append)
  also have "\<dots> = ?body k (?st k)"
    by (simp only: IH bindE.simps for_each_single)
  also have "\<dots> = Inr (?st (Suc k))"
    using k by (simp add: fill_step del: upt_Suc)
  finally show ?case .
qed

lemma update_limits_eq:
  fixes s :: RooBinIntegrator
  assumes "isValid (integrand s)"
  shows "update_limits s
         = Inr (s\<lparr>xmin := map (getMinLimit (integrand s)) [0..<getDimension (integrand s)],
                   xmax := map (getMaxLimit (integrand s)) [0..<getDimension (integrand s)]\<rparr>)"
  using assms
  by (simp add: update_limits_def Let_def update_limits_loop)

lemma check_range_eq:
  assumes "\<forall>i\<in>set is. i < length mins \<and> i < length maxs"
  shows "check_range mins maxs is
         = Inr (\<not> (\<exists>i\<in>set is. maxs ! i \<le> mins ! i
                     \<or> RooNumber_isInfinite (mins ! i) \<or> RooNumber_isInfinite (maxs ! i)))"
  using assms by (induction "is") auto

lemma RooNumber_isInfinite_iff: "RooNumber_isInfinite x \<longleftrightarrow> x \<in> {PosInf, NegInf, NaN}"
  by (cases x) simp_all

lemma checkLimits_authoritative:
  fixes s :: RooBinIntegrator
  assumes "useIntegrandLimits s" and "isValid (integrand s)"
  shows "\<exists>ok. checkLimits s
           = Inr (ok, s\<lparr>xmin := map (getMinLimit (integrand s)) [0..<getDimension (integrand s)],
                         xmax := map (getMaxLimit (integrand s)) [0..<getDimension (integrand s)]\<rparr>)"
  using assms
  by (simp add: checkLimits_def update_limits_eq check_range_eq)

lemma RooBinIntegrator_ctor_eq:
  assumes "isValid (integrand base)"
  shows "RooBinIntegrator_ctor base = Inr (built base 100)"
proof -
  let ?f = "integrand base"
  let ?d = "getDimension ?f"
  have loop: "for_each [0..<?d] ctor_body
           \<lparr>integrand = ?f, valid = valid base, useIntegrandLimits = True, numBins = 100,
            xmin = resize ?d [], xmax = resize ?d [], binb = []\<rparr> = Inr (built base 100)"
    by (subst ctor_loop) (simp_all add: built_def Let_def)
  obtain ok where "checkLimits (built base 100) = Inr (ok, built base 100)"
    using checkLimits_authoritative [of "built base 100"] assms
    by (auto simp: built_def Let_def)
  then show ?thesis
    using assms by (simp add: RooBinIntegrator_ctor_def Let_def loop)
qed

lemma RooBinIntegrator_ctor_config_eq:
  assumes "isValid (integrand base)"
    and "Int_of_Double (config ''RooBinIntegrator'' ''numBins'') = Inr n" and "n < 2147483647"
  shows "RooBinIntegrator_ctor_config base config = Inr (built base n)"
proof -
  let ?f = "integrand base"
  let ?d = "getDimension ?f"
  have loop: "for_each [0..<?d] ctor_config_body
           \<lparr>integrand = ?f, valid = valid base, useIntegrandLimits = True, numBins = n,
            xmin = [], xmax = [], binb = []\<rparr> = Inr (built base n)"
    using assms(3) by (subst ctor_config_loop) (simp_all add: built_def Let_def)
  obtain ok where "checkLimits (built base n) = Inr (ok, built base n)"
    using checkLimits_authoritative [of "built base n"] assms(1)
    by (auto simp: built_def Let_def)
  then show ?thesis
    using assms(1,2) by (simp add: RooBinIntegrator_ctor_config_def Let_def loop)
qed

lemma Int_of_Double_100: "Int_of_Double (Val 100) = Inr 100"
  by (simp add: Int_of_Double_def)

lemma ctor_config_invalid:
  assumes "\<not> isValid (integrand base)" and "Int_of_Double (config ''RooBinIntegrator'' ''numBins'') = Inr n"
  shows "RooBinIntegrator_ctor_config base config = Inl AssertFailed"
  using assms by (simp add: RooBinIntegrator_ctor_config_def Let_def)

lemma ctor_invalid:
  assumes "\<not> isValid (integrand base)"
  shows "RooBinIntegrator_ctor base = Inl AssertFailed"
  using assms by (simp add: RooBinIntegrator_ctor_def Let_def)

lemma built_fields [simp]:
  "integrand (built base n) = integrand base"
  "valid (built base n) = valid base"
  "useIntegrandLimits (built base n) = True"
  "numBins (built base n) = n"
  "xmin (built base n) = map (getMinLimit (integrand base)) [0..<getDimension (integrand base)]"
  "xmax (built base n) = map (getMaxLimit (integrand base)) [0..<getDimension (integrand base)]"
  "binb (built base n) = map (binning_of (integrand base) n) [0..<getDimension (integrand base)]"
  by (simp_all add: built_def Let_def)

lemma integral_frame:
  "integral (s\<lparr>xmin := mins, xmax := maxs\<rparr>) = integral s"
  by (simp add: integral_def sum1D_def sum2D_def sum3D_def)

lemma checkLimits_external:
  fixes s :: RooBinIntegrator
  assumes "\<not> useIntegrandLimits s"
    and "getDimension (integrand s) \<le> length (xmin s)"
    and "getDimension (integrand s) \<le> length (xmax s)"
  shows "checkLimits s
         = Inr (\<not> (\<exists>i < getDimension (integrand s). xmax s ! i \<le> xmin s ! i
                     \<or> RooNumber_isInfinite (xmin s ! i) \<or> RooNumber_isInfinite (xmax s ! i)), s)"
  using assms by (auto simp: checkLimits_def check_range_eq)

lemma checkLimits_frame:
  fixes s :: RooBinIntegrator
  assumes "checkLimits s = Inr (ok, s')"
  shows "\<exists>mins maxs. s' = s\<lparr>xmin := mins, xmax := maxs\<rparr>"
proof (cases "useIntegrandLimits s")
  case True
  then have "isValid (integrand s)"
    using assms by (auto simp: checkLimits_def update_limits_def Let_def split: if_splits)
  then obtain ok' where "checkLimits s
      = Inr (ok', s\<lparr>xmin := map (getMinLimit (integrand s)) [0..<getDimension (integrand s)],
                     xmax := map (getMaxLimit (integrand s)) [0..<getDimension (integrand s)]\<rparr>)"
    using checkLimits_authoritative [OF True] by blast
  then show ?thesis
    using assms by auto
next
  case False
  have "s' = s"
    using assms False
    by (cases "check_range (xmin s) (xmax s) [0..<getDimension (integrand s)]")
       (auto simp: checkLimits_def)
  then have "s' = s\<lparr>xmin := xmin s, xmax := xmax s\<rparr>"
    by simp
  then show ?thesis
    by blast
qed

lemma integral_defined:
  assumes "valid s" and "getDimension (integrand s) \<le> length (binb s)"
    and "\<forall>i < getDimension (integrand s). binb s ! i \<noteq> []"
  shows "\<exists>v. integral s = Inr v"
proof -
  consider "getDimension (integrand s) = 1" | "getDimension (integrand s) = 2"
    | "getDimension (integrand s) = 3" | "getDimension (integrand s) = 0"
    | "4 \<le> getDimension (integrand s)"
    by linarith
  then show ?thesis
  proof cases
    case 1
    then show ?thesis
      using assms by (simp add: integral_def sum1D_eq)
  next
    case 2
    then have "binb s ! 0 \<noteq> []" "binb s ! 1 \<noteq> []" "2 \<le> length (binb s)"
      using assms by simp_all
    then show ?thesis
      using assms(1) 2 by (simp add: integral_def sum2D_eq)
  next
    case 3
    then have "binb s ! 0 \<noteq> []" "binb s ! 1 \<noteq> []" "binb s ! 2 \<noteq> []" "3 \<le> length (binb s)"
      using assms by simp_all
    then show ?thesis
      using assms(1) 3 by (simp add: integral_def sum3D_eq)
  next
    case 4
    then show ?thesis
      using assms(1) by (simp add: integral_def)
  next
    case 5
    then show ?thesis
      using assms(1) by (simp add: integral_def)
  qed
qed

lemma integral_eq_midpoint_sum:
  assumes "valid s" and "getDimension (integrand s) \<le> length (binb s)"
    and "\<forall>i < getDimension (integrand s). binb s ! i \<noteq> []"
  shows "integral s = Inr (midpoint_sum (integrand s) (binb s))"
proof -
  consider "getDimension (integrand s) = 1" | "getDimension (integrand s) = 2"
    | "getDimension (integrand s) = 3" | "getDimension (integrand s) = 0"
    | "4 \<le> getDimension (integrand s)"
    by linarith
  then show ?thesis
  proof cases
    case 1
    then show ?thesis
      using assms by (simp add: integral_def sum1D_eq midpoint_sum_def midpoint_sum1_def)
  next
    case 2
    then have "binb s ! 0 \<noteq> []" "binb s ! 1 \<noteq> []" "2 \<le> length (binb s)"
      using assms by simp_all
    then show ?thesis
      using assms(1) 2 by (simp add: integral_def sum2D_eq midpoint_sum_def midpoint_sum2_def)
  next
    case 3
    then have "binb s ! 0 \<noteq> []" "binb s ! 1 \<noteq> []" "binb s ! 2 \<noteq> []" "3 \<le> length (binb s)"
      using assms by simp_all
    then show ?thesis
      using assms(1) 3 by (simp add: integral_def sum3D_eq midpoint_sum_def midpoint_sum3_def)
  next
    case 4
    then show ?thesis
      using assms(1) by (simp add: integral_def midpoint_sum_def)
  next
    case 5
    then show ?thesis
      using assms(1) by (simp add: integral_def midpoint_sum_def)
  qed
qed

lemma binning_of_Some: "binBoundaries f i = Some bs \<Longrightarrow> binning_of f n i = bs"
  by (simp add: binning_of_def)

lemma binning_of_None:
  "binBoundaries f i = None \<Longrightarrow>
   binning_of f n i = map (uniform_boundary (getMinLimit f i) (getMaxLimit f i) n) [0..n]"
  by (simp add: binning_of_def)

lemma binning_of_nonempty:
  "0 \<le> n \<Longrightarrow> binBoundaries f i \<noteq> Some [] \<Longrightarrow> binning_of f n i \<noteq> []"
  by (cases "binBoundaries f i") (auto simp: binning_of_def upto.simps)

lemma uniform_row:
  assumes "0 \<le> n"
  shows "int (length (map (uniform_boundary lo hi n) [0..n])) = n + 1"
    and "\<forall>j\<in>{0..n}. map (uniform_boundary lo hi n) [0..n] ! nat j
            = lo + Double_of_Int j * (hi - lo) / Double_of_Int n"
  using assms by (auto simp: nth_upto uniform_boundary_def)

section \<open>Rounding\<close>

lemma round_even_of_int: "round_even (of_int j) = j"
  by (simp add: round_even_def)

lemma expo_up_bounds:
  "1 \<le> x \<Longrightarrow> x < 2 ^ Suc n \<Longrightarrow> e0 \<le> expo_up x e0 \<and> expo_up x e0 \<le> e0 + int n"
proof (induction n arbitrary: x e0)
  case 0
  then show ?case
    by (simp add: expo_up.simps)
next
  case (Suc n)
  show ?case
  proof (cases "2 \<le> x \<and> e0 < 1024")
    case True
    then have "1 \<le> x / 2" and "x / 2 < 2 ^ Suc n"
      using Suc.prems by simp_all
    then have "e0 + 1 \<le> expo_up (x / 2) (e0 + 1) \<and> expo_up (x / 2) (e0 + 1) \<le> e0 + 1 + int n"
      by (rule Suc.IH)
    moreover have "expo_up x e0 = expo_up (x / 2) (e0 + 1)"
      using True by (subst expo_up.simps) simp
    ultimately show ?thesis
      by simp
  next
    case False
    then have "expo_up x e0 = e0"
      by (subst expo_up.simps) auto
    then show ?thesis
      by simp
  qed
qed

lemma round_double_int:
  assumes "\<bar>k\<bar> < 2 ^ 53"
  shows "round_double (of_int k) = Val (of_int k)"
proof (cases "k = 0")
  case True
  then show ?thesis
    by (simp add: round_double_def)
next
  case False
  define e where "e = exponent \<bar>real_of_int k\<bar>"
  have abs_k: "\<bar>real_of_int k\<bar> = of_int \<bar>k\<bar>"
    by simp
  have "1 \<le> \<bar>k\<bar>"
    using False by simp
  then have "1 \<le> \<bar>real_of_int k\<bar>"
    unfolding abs_k by simp
  moreover have small: "\<bar>real_of_int k\<bar> < 2 ^ 53"
    unfolding abs_k using assms by (simp only: of_int_less_numeral_power_cancel_iff)
  ultimately have e: "0 \<le> e" "e \<le> 52"
    using expo_up_bounds [of "\<bar>real_of_int k\<bar>" 52 0] by (simp_all add: e_def exponent_def)
  define j where "j = k * 2 ^ nat (52 - e)"
  have u: "ulp e = 1 / 2 ^ nat (52 - e)"
    using e by (auto simp: ulp_def) 
  have "real_of_int k / ulp e = of_int j"
    by (simp add: u j_def)
  then have "of_int (round_even (real_of_int k / ulp e)) * ulp e = real_of_int k"
    by (simp add: round_even_of_int) (simp add: u j_def)
  moreover have "\<bar>real_of_int k\<bar> < 2 ^ 1024"
  proof -
    have "(2::real) ^ 53 \<le> 2 ^ 1024"
      by (rule power_increasing) simp_all
    then show ?thesis
      using small by linarith
  qed
  ultimately show ?thesis
    using False by (simp add: round_double_def Let_def e_def [symmetric])
qed

section \<open>Constant integrands on integer boundaries\<close>

lemma int_plus_exact:
  "\<bar>a + b\<bar> < 2 ^ 53 \<Longrightarrow> Val (of_int a) + Val (of_int b) = Val (of_int (a + b))"
  using round_double_int [of "a + b"] by simp

lemma int_minus_exact:
  "\<bar>a - b\<bar> < 2 ^ 53 \<Longrightarrow> Val (of_int a) - Val (of_int b) = Val (of_int (a - b))"
  using round_double_int [of "a - b"] by (simp add: minus_Double_t_def)

lemma int_times_exact:
  "\<bar>a * b\<bar> < 2 ^ 53 \<Longrightarrow> Val (of_int a) * Val (of_int b) = Val (of_int (a * b))"
  using round_double_int [of "a * b"] by simp

lemma foldl_int_exact:
  assumes "\<forall>v\<in>set vs. 0 \<le> v" and "0 \<le> a" and "\<bar>c\<bar> * (a + sum_list vs) < 2 ^ 53"
  shows "foldl (+) (Val (of_int (c * a))) (map (\<lambda>v. Val (of_int (c * v))) vs)
         = Val (of_int (c * (a + sum_list vs)))"
  using assms
proof (induction vs arbitrary: a)
  case Nil
  show ?case by simp
next
  case (Cons v vs)
  have nonneg: "0 \<le> v" "0 \<le> sum_list vs"
    using Cons.prems(1) by (simp_all add: sum_list_nonneg)
  have "\<bar>c\<bar> * (a + v) \<le> \<bar>c\<bar> * (a + sum_list (v # vs))"
    using nonneg by (intro mult_left_mono) simp_all
  moreover have "\<bar>c * a + c * v\<bar> = \<bar>c\<bar> * (a + v)"
    using nonneg Cons.prems(2) by (simp add: abs_mult distrib_left [symmetric])
  ultimately have "\<bar>c * a + c * v\<bar> < 2 ^ 53"
    using Cons.prems(3) by linarith
  then have "Val (of_int (c * a)) + Val (of_int (c * v)) = Val (of_int (c * a + c * v))"
    by (rule int_plus_exact)
  moreover have "c * a + c * v = c * (a + v)"
    by (simp add: distrib_left)
  ultimately have step: "Val (of_int (c * a)) + Val (of_int (c * v)) = Val (of_int (c * (a + v)))"
    by (simp only:)
  have "foldl (+) (Val (of_int (c * (a + v)))) (map (\<lambda>v. Val (of_int (c * v))) vs)
        = Val (of_int (c * (a + v + sum_list vs)))"
    using Cons.prems nonneg by (intro Cons.IH) (simp_all add: add.assoc)
  then show ?case
    by (simp only: list.map foldl_Cons step sum_list.Cons add.assoc)
qed

lemma bins_map_Val:
  "bins (map (\<lambda>k. Val (of_int k)) ks) = map Val_pair (zip ks (tl ks))"
proof -
  have "zip (map (\<lambda>k. Val (real_of_int k)) ks) (map (\<lambda>k. Val (real_of_int k)) (tl ks))
        = map (\<lambda>(x, y). (Val (real_of_int x), Val (real_of_int y))) (zip ks (tl ks))"
    by (rule zip_map_map)
  then show ?thesis
    by (simp add: bins_def map_tl Val_pair_def case_prod_unfold)
qed

lemma sum_extents: "ks \<noteq> [] \<Longrightarrow> sum_list (map bin_extent (zip ks (tl ks))) = last ks - hd ks"
proof (induction ks)
  case Nil
  then show ?case by simp
next
  case (Cons k ks)
  then show ?case
    by (cases ks) (simp_all add: bin_extent_def)
qed

lemma extents_pos:
  "sorted_wrt (<) ks \<Longrightarrow> \<forall>p\<in>set (zip ks (tl ks)). 0 < bin_extent p"
proof (induction ks)
  case Nil
  then show ?case by simp
next
  case (Cons k ks)
  then show ?case
    by (cases ks) (auto simp: bin_extent_def)
qed

lemma extent_le:
  assumes "sorted_wrt (<) ks" and "p \<in> set (zip ks (tl ks))"
  shows "0 < bin_extent p" and "bin_extent p \<le> last ks - hd ks"
proof -
  show pos: "0 < bin_extent p"
    using extents_pos assms by blast
  have "ks \<noteq> []"
    using assms(2) by auto
  moreover have "bin_extent p \<le> sum_list (map bin_extent (zip ks (tl ks)))"
    using assms extents_pos [OF assms(1)]
    by (intro member_le_sum_list) (auto simp: less_imp_le)
  ultimately show "bin_extent p \<le> last ks - hd ks"
    by (simp add: sum_extents)
qed

lemma extent_ge_1:
  fixes ks :: "int list"
  assumes "sorted_wrt (<) ks" and "2 \<le> length ks"
  shows "1 \<le> last ks - hd ks"
proof -
  obtain k k' ks' where "ks = k # k' # ks'"
    using assms(2) by (cases ks; cases "tl ks") auto
  then have "(k, k') \<in> set (zip ks (tl ks))"
    by simp
  then have "0 < bin_extent (k, k')" "bin_extent (k, k') \<le> last ks - hd ks"
    using extent_le [OF assms(1)] by blast+
  then show ?thesis
    by simp
qed

lemma volume_bounds:
  fixes c :: int
  assumes "0 < e1" "e1 \<le> X" "0 < e2" "e2 \<le> Y" "0 < e3" "e3 \<le> Z"
    and "max 1 \<bar>c\<bar> * (X * Y * Z) < B"
  shows "\<bar>e1\<bar> < B" and "\<bar>c * e1\<bar> < B" and "\<bar>c * e1 * e2\<bar> < B"
    and "\<bar>c * e1 * e2 * e3\<bar> < B" and "\<bar>c\<bar> * (X * Y * Z) < B"
    and "\<bar>e2\<bar> < B" and "\<bar>e3\<bar> < B"
proof -
  define M where "M = max 1 \<bar>c\<bar>"
  have M: "1 \<le> M" "\<bar>c\<bar> \<le> M" "0 \<le> M"
    by (simp_all add: M_def)
  have "e1 * e2 \<le> X * Y"
    using assms by (intro mult_mono) simp_all
  then have vol: "e1 * e2 * e3 \<le> X * Y * Z"
    using assms by (intro mult_mono) simp_all
  have "M * (e1 * e2 * e3) \<le> M * (X * Y * Z)"
    using vol M(3) by (rule mult_left_mono)
  then have top: "M * (e1 * e2 * e3) < B"
    using assms(7) by (simp add: M_def)
  have e12: "e1 \<le> e1 * e2"
    using assms by (simp add: mult_le_cancel_left1)
  have "0 \<le> e1 * e2"
    using assms by simp
  then have e123: "e1 * e2 \<le> e1 * e2 * e3"
    using mult_left_mono [of 1 e3 "e1 * e2"] assms(5) by simp
  have Me: "M * e1 \<le> M * (e1 * e2)" "M * (e1 * e2) \<le> M * (e1 * e2 * e3)"
    using e12 e123 M(3) by (simp_all add: mult_left_mono)
  have c1: "\<bar>c\<bar> * e1 \<le> M * e1"
    using M(2) assms(1) by (intro mult_right_mono) simp_all
  have c2: "\<bar>c\<bar> * (e1 * e2) \<le> M * (e1 * e2)"
    using M(2) assms(1,3) by (intro mult_right_mono) simp_all
  have c3: "\<bar>c\<bar> * (e1 * e2 * e3) \<le> M * (e1 * e2 * e3)"
    using M(2) assms(1,3,5) by (intro mult_right_mono) simp_all
  have m1: "e1 \<le> M * e1"
    using mult_right_mono [of 1 M e1] M(1) assms(1) by simp
  have abs1: "\<bar>e1\<bar> = e1" "\<bar>c * e1\<bar> = \<bar>c\<bar> * e1"
    "\<bar>c * e1 * e2\<bar> = \<bar>c\<bar> * (e1 * e2)" "\<bar>c * e1 * e2 * e3\<bar> = \<bar>c\<bar> * (e1 * e2 * e3)"
    using assms(1,3,5) by (simp_all add: abs_mult mult.assoc)
  show "\<bar>e1\<bar> < B"
    unfolding abs1 using m1 Me top by linarith
  show "\<bar>c * e1\<bar> < B"
    unfolding abs1 using c1 Me top by linarith
  show "\<bar>c * e1 * e2\<bar> < B"
    unfolding abs1 using c2 Me top by linarith
  show "\<bar>c * e1 * e2 * e3\<bar> < B"
    unfolding abs1 using c3 top by linarith
  have "e2 \<le> e1 * e2"
    using mult_right_mono [of 1 e1 e2] assms(1,3) by simp
  moreover have m12: "e1 * e2 \<le> M * (e1 * e2)"
    using mult_right_mono [of 1 M "e1 * e2"] M(1) assms(1,3) by simp
  ultimately show "\<bar>e2\<bar> < B"
    using assms(3) Me top by linarith
  have "1 \<le> e1 * e2"
    using mult_mono [of 1 e1 1 e2] assms(1,3) by simp
  then have "e3 \<le> e1 * e2 * e3"
    using mult_right_mono [of 1 "e1 * e2" e3] assms(5) by simp
  moreover have "e1 * e2 * e3 \<le> M * (e1 * e2 * e3)"
    using mult_right_mono [of 1 M "e1 * e2 * e3"] M(1) assms(1,3,5) by simp
  ultimately show "\<bar>e3\<bar> < B"
    using assms(5) top by linarith
  have "\<bar>c\<bar> * (X * Y * Z) \<le> M * (X * Y * Z)"
    using M(2) assms by (intro mult_right_mono) simp_all
  then show "\<bar>c\<bar> * (X * Y * Z) < B"
    using assms(7) by (simp add: M_def)
qed

lemma bin_width_Val_pair:
  "\<bar>bin_extent p\<bar> < 2 ^ 53 \<Longrightarrow> bin_width (Val_pair p) = Val (of_int (bin_extent p))"
  by (simp add: bin_width_def Val_pair_def bin_extent_def int_minus_exact)

lemma sum_list_volumes2:
  fixes g h :: "'a \<Rightarrow> int"
  shows "sum_list (concat (map (\<lambda>a. map (\<lambda>b. g a * h b) ys) xs))
         = sum_list (map g xs) * sum_list (map h ys)"
  by (induction xs) (simp_all add: sum_list_const_mult distrib_right)

lemma sum_list_volumes3:
  fixes g h k :: "'a \<Rightarrow> int"
  shows "sum_list (concat (map (\<lambda>a. concat (map (\<lambda>b. map (\<lambda>d. g a * h b * k d) zs) ys)) xs))
         = sum_list (map g xs) * sum_list (map h ys) * sum_list (map k zs)"
proof -
  have inner: "sum_list (concat (map (\<lambda>b. map (\<lambda>d. g a * h b * k d) zs) ys))
        = g a * sum_list (map h ys) * sum_list (map k zs)" for a
    using sum_list_volumes2 [of "\<lambda>b. g a * h b" k zs ys]
    by (simp add: sum_list_const_mult)
  show ?thesis
    by (induction xs) (simp_all add: inner distrib_right)
qed

lemma bin_term3_const:
  fixes kx ky kz :: "int list"
  assumes ev: "eval f = (\<lambda>x. Val (of_int c))"
    and sorted: "sorted_wrt (<) kx" "sorted_wrt (<) ky" "sorted_wrt (<) kz"
    and bound: "max 1 \<bar>c\<bar> * ((last kx - hd kx) * (last ky - hd ky) * (last kz - hd kz)) < 2 ^ 53"
    and mem: "p1 \<in> set (zip kx (tl kx))" "p2 \<in> set (zip ky (tl ky))" "p3 \<in> set (zip kz (tl kz))"
  shows "bin_term3 f (Val_pair p1) (Val_pair p2) (Val_pair p3)
         = Val (of_int (c * (bin_extent p1 * bin_extent p2 * bin_extent p3)))"
proof -
  note e1 = extent_le [OF sorted(1) mem(1)]
  note e2 = extent_le [OF sorted(2) mem(2)]
  note e3 = extent_le [OF sorted(3) mem(3)]
  note b = volume_bounds [OF e1 e2 e3 bound]
  have "bin_term3 f (Val_pair p1) (Val_pair p2) (Val_pair p3)
        = Val (of_int c) * Val (of_int (bin_extent p1)) * Val (of_int (bin_extent p2))
            * Val (of_int (bin_extent p3))"
    by (simp only: bin_term3_def ev bin_width_Val_pair [OF b(1)] bin_width_Val_pair [OF b(6)]
          bin_width_Val_pair [OF b(7)])
  also have "\<dots> = Val (of_int (c * bin_extent p1 * bin_extent p2 * bin_extent p3))"
    by (simp only: int_times_exact [OF b(2)] int_times_exact [OF b(3)] int_times_exact [OF b(4)])
  finally show ?thesis
    by (simp only: mult.assoc)
qed

lemma bin_term2_const:
  fixes kx ky :: "int list"
  assumes ev: "eval f = (\<lambda>x. Val (of_int c))"
    and sorted: "sorted_wrt (<) kx" "sorted_wrt (<) ky"
    and bound: "max 1 \<bar>c\<bar> * ((last kx - hd kx) * (last ky - hd ky)) < 2 ^ 53"
    and mem: "p1 \<in> set (zip kx (tl kx))" "p2 \<in> set (zip ky (tl ky))"
  shows "bin_term2 f (Val_pair p1) (Val_pair p2)
         = Val (of_int (c * (bin_extent p1 * bin_extent p2)))"
proof -
  note e1 = extent_le [OF sorted(1) mem(1)]
  note e2 = extent_le [OF sorted(2) mem(2)]
  have "max 1 \<bar>c\<bar> * ((last kx - hd kx) * (last ky - hd ky) * 1) < 2 ^ 53"
    using bound by simp
  note b = volume_bounds [OF e1 e2 zero_less_one order_refl this]
  have "bin_term2 f (Val_pair p1) (Val_pair p2)
        = Val (of_int c) * Val (of_int (bin_extent p1)) * Val (of_int (bin_extent p2))"
    by (simp only: bin_term2_def ev bin_width_Val_pair [OF b(1)] bin_width_Val_pair [OF b(6)])
  also have "\<dots> = Val (of_int (c * bin_extent p1 * bin_extent p2))"
    by (simp only: int_times_exact [OF b(2)] int_times_exact [OF b(3)])
  finally show ?thesis
    by (simp only: mult.assoc)
qed

lemma bin_term1_const:
  fixes kx :: "int list"
  assumes ev: "eval f = (\<lambda>x. Val (of_int c))"
    and sorted: "sorted_wrt (<) kx"
    and bound: "max 1 \<bar>c\<bar> * (last kx - hd kx) < 2 ^ 53"
    and mem: "p1 \<in> set (zip kx (tl kx))"
  shows "bin_term1 f (Val_pair p1) = Val (of_int (c * bin_extent p1))"
proof -
  note e1 = extent_le [OF sorted(1) mem(1)]
  have "max 1 \<bar>c\<bar> * ((last kx - hd kx) * 1 * 1) < 2 ^ 53"
    using bound by simp
  note b = volume_bounds [OF e1 zero_less_one order_refl zero_less_one order_refl this]
  have "bin_term1 f (Val_pair p1) = Val (of_int c) * Val (of_int (bin_extent p1))"
    by (simp only: bin_term1_def ev bin_width_Val_pair [OF b(1)])
  then show ?thesis
    by (simp only: int_times_exact [OF b(2)])
qed

lemma extents_nonneg:
  fixes kx :: "int list"
  assumes "sorted_wrt (<) kx"
  shows "\<forall>p\<in>set (zip kx (tl kx)). 0 \<le> bin_extent p"
  using extents_pos [OF assms] by (auto simp: less_imp_le)

lemma midpoint_sum1_const:
  fixes kx :: "int list"
  assumes ev: "eval f = (\<lambda>x. Val (of_int c))"
    and sorted: "sorted_wrt (<) kx" and len: "2 \<le> length kx"
    and bound: "max 1 \<bar>c\<bar> * (last kx - hd kx) < 2 ^ 53"
  shows "midpoint_sum1 f (map (\<lambda>k. Val (of_int k)) kx) = Val (of_int (c * (last kx - hd kx)))"
proof -
  let ?zx = "zip kx (tl kx)"
  have "kx \<noteq> []"
    using len by auto
  then have total: "sum_list (map bin_extent ?zx) = last kx - hd kx"
    by (rule sum_extents)
  have terms: "map (bin_term1 f) (bins (map (\<lambda>k. Val (of_int k)) kx))
        = map (\<lambda>v. Val (of_int (c * v))) (map bin_extent ?zx)"
    by (simp add: bins_map_Val bin_term1_const [OF ev sorted bound])
  have "\<bar>c\<bar> * (last kx - hd kx) \<le> max 1 \<bar>c\<bar> * (last kx - hd kx)"
    using extent_ge_1 [OF sorted len] by (intro mult_right_mono) simp_all
  then have "\<bar>c\<bar> * (0 + sum_list (map bin_extent ?zx)) < 2 ^ 53"
    using bound total by simp
  then have "foldl (+) (Val (of_int (c * 0))) (map (\<lambda>v. Val (of_int (c * v))) (map bin_extent ?zx))
        = Val (of_int (c * (0 + sum_list (map bin_extent ?zx))))"
    using extents_nonneg [OF sorted] by (intro foldl_int_exact) simp_all
  then show ?thesis
    by (simp add: midpoint_sum1_def terms total)
qed

lemma midpoint_sum2_const:
  fixes kx ky :: "int list"
  assumes ev: "eval f = (\<lambda>x. Val (of_int c))"
    and sorted: "sorted_wrt (<) kx" "sorted_wrt (<) ky"
    and len: "2 \<le> length kx" "2 \<le> length ky"
    and bound: "max 1 \<bar>c\<bar> * ((last kx - hd kx) * (last ky - hd ky)) < 2 ^ 53"
  shows "midpoint_sum2 f (map (\<lambda>k. Val (of_int k)) kx) (map (\<lambda>k. Val (of_int k)) ky)
         = Val (of_int (c * ((last kx - hd kx) * (last ky - hd ky))))"
proof -
  let ?zx = "zip kx (tl kx)" and ?zy = "zip ky (tl ky)"
  let ?vs = "concat (map (\<lambda>p1. map (\<lambda>p2. bin_extent p1 * bin_extent p2) ?zy) ?zx)"
  have "kx \<noteq> []" "ky \<noteq> []"
    using len by auto
  then have total: "sum_list ?vs = (last kx - hd kx) * (last ky - hd ky)"
    by (simp add: sum_list_volumes2 sum_extents)
  have terms: "concat (map (\<lambda>b1. map (bin_term2 f b1) (bins (map (\<lambda>k. Val (of_int k)) ky)))
                        (bins (map (\<lambda>k. Val (of_int k)) kx)))
        = map (\<lambda>v. Val (of_int (c * v))) ?vs"
    by (simp add: bins_map_Val map_concat comp_def bin_term2_const [OF ev sorted bound]
          cong: map_cong)
  have nonneg: "\<forall>v\<in>set ?vs. 0 \<le> v"
    using extents_nonneg [OF sorted(1)] extents_nonneg [OF sorted(2)] by auto
  have "1 \<le> (last kx - hd kx) * (last ky - hd ky)"
    using mult_mono [of 1 "last kx - hd kx" 1 "last ky - hd ky"]
      extent_ge_1 [OF sorted(1) len(1)] extent_ge_1 [OF sorted(2) len(2)]
    by simp
  then have "\<bar>c\<bar> * ((last kx - hd kx) * (last ky - hd ky))
        \<le> max 1 \<bar>c\<bar> * ((last kx - hd kx) * (last ky - hd ky))"
    by (intro mult_right_mono) simp_all
  then have "\<bar>c\<bar> * (0 + sum_list ?vs) < 2 ^ 53"
    using bound total by simp
  then have "foldl (+) (Val (of_int (c * 0))) (map (\<lambda>v. Val (of_int (c * v))) ?vs)
        = Val (of_int (c * (0 + sum_list ?vs)))"
    using nonneg by (intro foldl_int_exact) simp_all
  then show ?thesis
    by (simp add: midpoint_sum2_def terms total)
qed

lemma midpoint_sum3_const:
  fixes kx ky kz :: "int list"
  assumes ev: "eval f = (\<lambda>x. Val (of_int c))"
    and sorted: "sorted_wrt (<) kx" "sorted_wrt (<) ky" "sorted_wrt (<) kz"
    and len: "2 \<le> length kx" "2 \<le> length ky" "2 \<le> length kz"
    and bound: "max 1 \<bar>c\<bar> * ((last kx - hd kx) * (last ky - hd ky) * (last kz - hd kz)) < 2 ^ 53"
  shows "midpoint_sum3 f (map (\<lambda>k. Val (of_int k)) kx) (map (\<lambda>k. Val (of_int k)) ky)
           (map (\<lambda>k. Val (of_int k)) kz)
         = Val (of_int (c * ((last kx - hd kx) * (last ky - hd ky) * (last kz - hd kz))))"
proof -
  let ?zx = "zip kx (tl kx)" and ?zy = "zip ky (tl ky)" and ?zz = "zip kz (tl kz)"
  let ?vs = "concat (map (\<lambda>p1. concat (map (\<lambda>p2. map (\<lambda>p3.
                bin_extent p1 * bin_extent p2 * bin_extent p3) ?zz) ?zy)) ?zx)"
  have "kx \<noteq> []" "ky \<noteq> []" "kz \<noteq> []"
    using len by auto
  then have total: "sum_list ?vs = (last kx - hd kx) * (last ky - hd ky) * (last kz - hd kz)"
    by (simp add: sum_list_volumes3 sum_extents)
  have terms: "concat (map (\<lambda>b1. concat (map (\<lambda>b2. map (bin_term3 f b1 b2)
                   (bins (map (\<lambda>k. Val (of_int k)) kz)))
                   (bins (map (\<lambda>k. Val (of_int k)) ky))))
                   (bins (map (\<lambda>k. Val (of_int k)) kx)))
        = map (\<lambda>v. Val (of_int (c * v))) ?vs"
    by (simp add: bins_map_Val map_concat comp_def bin_term3_const [OF ev sorted bound]
          cong: map_cong)
  have nonneg: "\<forall>v\<in>set ?vs. 0 \<le> v"
    using extents_nonneg [OF sorted(1)] extents_nonneg [OF sorted(2)] extents_nonneg [OF sorted(3)]
    by auto
  have "1 \<le> (last kx - hd kx) * (last ky - hd ky)"
    using mult_mono [of 1 "last kx - hd kx" 1 "last ky - hd ky"]
      extent_ge_1 [OF sorted(1) len(1)] extent_ge_1 [OF sorted(2) len(2)]
    by simp
  then have "1 \<le> (last kx - hd kx) * (last ky - hd ky) * (last kz - hd kz)"
    using mult_mono [of 1 "(last kx - hd kx) * (last ky - hd ky)" 1 "last kz - hd kz"]
      extent_ge_1 [OF sorted(3) len(3)]
    by simp
  then have "\<bar>c\<bar> * ((last kx - hd kx) * (last ky - hd ky) * (last kz - hd kz))
        \<le> max 1 \<bar>c\<bar> * ((last kx - hd kx) * (last ky - hd ky) * (last kz - hd kz))"
    by (intro mult_right_mono) simp_all
  then have "\<bar>c\<bar> * (0 + sum_list ?vs) < 2 ^ 53"
    using bound total by simp
  then have "foldl (+) (Val (of_int (c * 0))) (map (\<lambda>v. Val (of_int (c * v))) ?vs)
        = Val (of_int (c * (0 + sum_list ?vs)))"
    using nonneg by (intro foldl_int_exact) simp_all
  then show ?thesis
    by (simp add: midpoint_sum3_def terms total)
qed


section \<open>Facts about the example inputs\<close>

lemmas round_eval =
  round_double_def exponent_def expo_up.simps expo_down.simps ulp_def round_even_def Let_def

lemma example_base_fields [simp]:
  "isValid (integrand (example_base d bb))"
  "valid (example_base d bb)"
  "getDimension (integrand (example_base d bb)) = d"
  "binBoundaries (integrand (example_base d bb)) = bb"
  "getMinLimit (integrand (example_base d bb)) i = Val 0"
  "getMaxLimit (integrand (example_base d bb)) i = Val 7"
  "eval (integrand (example_base d bb)) = foldl (*) (Val 1)"
  by (simp_all add: example_base_def example_func_def)

lemma Int_of_Double_4: "Int_of_Double (Val 4) = Inr 4"
  by (simp add: Int_of_Double_def)

lemma Int_of_Double_3: "Int_of_Double (Val 3) = Inr 3"
  by (simp add: Int_of_Double_def)

lemma all_less_2: "(\<forall>i<2::nat. P i) \<longleftrightarrow> P 0 \<and> P 1"
  by (auto simp: less_2_cases_iff)


section \<open>The claims\<close>

text \<open>
  Claim C1. On a state that passes the validity assertion and whose bin table has a non-empty
  row for every dimension, \<^verbatim>\<open>integral\<close> of a 1-, 2- or 3-dimensional integrand returns the
  sum, over all combinations of bins, of the integrand at the bin midpoints times the bin
  widths: a single loop in one dimension, nested loops with dimension 0 outermost in two and
  three dimensions. The terms are added in loop order, and each term multiplies the function
  value by the widths one dimension after the other, as the source does.
\<close>

theorem integral_midpoint_sum:
  assumes "valid s" and "getDimension (integrand s) \<le> length (binb s)"
    and "\<forall>i < getDimension (integrand s). binb s ! i \<noteq> []"
  shows "(getDimension (integrand s) = 1 \<longrightarrow>
            integral s = Inr (midpoint_sum1 (integrand s) (binb s ! 0)))
       \<and> (getDimension (integrand s) = 2 \<longrightarrow>
            integral s = Inr (midpoint_sum2 (integrand s) (binb s ! 0) (binb s ! 1)))
       \<and> (getDimension (integrand s) = 3 \<longrightarrow>
            integral s = Inr (midpoint_sum3 (integrand s) (binb s ! 0) (binb s ! 1) (binb s ! 2)))"
proof (intro conjI impI)
  assume d: "getDimension (integrand s) = 1"
  then show "integral s = Inr (midpoint_sum1 (integrand s) (binb s ! 0))"
    using assms by (simp add: integral_def sum1D_eq midpoint_sum1_def)
next
  assume d: "getDimension (integrand s) = 2"
  then have "binb s ! 0 \<noteq> []" "binb s ! 1 \<noteq> []" "2 \<le> length (binb s)"
    using assms by simp_all
  then show "integral s = Inr (midpoint_sum2 (integrand s) (binb s ! 0) (binb s ! 1))"
    using assms(1) d by (simp add: integral_def sum2D_eq midpoint_sum2_def)
next
  assume d: "getDimension (integrand s) = 3"
  then have "binb s ! 0 \<noteq> []" "binb s ! 1 \<noteq> []" "binb s ! 2 \<noteq> []" "3 \<le> length (binb s)"
    using assms by simp_all
  then show "integral s = Inr (midpoint_sum3 (integrand s) (binb s ! 0) (binb s ! 1) (binb s ! 2))"
    using assms(1) d by (simp add: integral_def sum3D_eq midpoint_sum3_def)
qed

text \<open>
  An instance of C1 in two dimensions: the bins \<open>[0,1]\<close>, \<open>[1,3]\<close> by the bin \<open>[0,2]\<close> for
  the integrand \<open>x * y\<close>.
\<close>

theorem integral_midpoint_sum_witness:
  "valid (example_state 2 True [[Val 0, Val 1, Val 3], [Val 0, Val 2]])
   \<and> integral (example_state 2 True [[Val 0, Val 1, Val 3], [Val 0, Val 2]])
       = Inr (midpoint_sum2 (example_func 2 no_binning) [Val 0, Val 1, Val 3] [Val 0, Val 2])
   \<and> midpoint_sum2 (example_func 2 no_binning) [Val 0, Val 1, Val 3] [Val 0, Val 2] = Val 9"
  using integral_midpoint_sum [of "example_state 2 True [[Val 0, Val 1, Val 3], [Val 0, Val 2]]"]
  by (simp add: example_state_def example_func_def all_less_2 midpoint_sum2_def bins_def
        bin_term2_def midpoint_def bin_width_def minus_Double_t_def round_eval)

text \<open>
  Claim C2. When the integrand has four or more dimensions, none of the three loop nests
  runs and \<^verbatim>\<open>integral\<close> returns the initial sum, zero, without reporting anything.
\<close>

theorem integral_dim_ge_4_zero:
  "valid s \<Longrightarrow> 4 \<le> getDimension (integrand s) \<Longrightarrow> integral s = Inr (Val 0)"
  by (simp add: integral_def)

text \<open>
  An instance of C2: a 4-dimensional integrand.
\<close>

theorem integral_dim_ge_4_zero_witness:
  "valid (example_state 4 True []) \<and> 4 \<le> getDimension (integrand (example_state 4 True []))
   \<and> integral (example_state 4 True []) = Inr (Val 0)"
  using integral_dim_ge_4_zero [of "example_state 4 True []"]
  by (simp add: example_state_def example_func_def)

text \<open>
  Claim C3. When the integrand supplies a boundary sequence for dimension \<open>i\<close>, either
  constructor stores exactly that sequence as row \<open>i\<close> of the bin table, and \<^verbatim>\<open>integral\<close>
  sums over the bins of the stored rows, so over the supplied bins in dimension \<open>i\<close>.
\<close>

theorem supplied_boundaries_used:
  assumes "isValid (integrand base)" and "i < getDimension (integrand base)"
    and "binBoundaries (integrand base) i = Some bs"
  shows "(\<exists>s. RooBinIntegrator_ctor base = Inr s \<and> binb s ! i = bs
            \<and> (valid base \<and> (\<forall>k < getDimension (integrand base). binb s ! k \<noteq> []) \<longrightarrow>
                 integral s = Inr (midpoint_sum (integrand base) (binb s))))
       \<and> (\<forall>n. Int_of_Double (config ''RooBinIntegrator'' ''numBins'') = Inr n \<and> n < 2147483647 \<longrightarrow>
            (\<exists>s. RooBinIntegrator_ctor_config base config = Inr s \<and> binb s ! i = bs
               \<and> (valid base \<and> (\<forall>k < getDimension (integrand base). binb s ! k \<noteq> []) \<longrightarrow>
                    integral s = Inr (midpoint_sum (integrand base) (binb s)))))"
proof -
  have stored: "binb (built base n) ! i = bs
        \<and> (valid base \<and> (\<forall>k < getDimension (integrand base). binb (built base n) ! k \<noteq> []) \<longrightarrow>
             integral (built base n) = Inr (midpoint_sum (integrand base) (binb (built base n))))"
    for n
  proof (intro conjI impI)
    show "binb (built base n) ! i = bs"
      using assms(2,3) by (simp add: binning_of_Some)
    assume "valid base \<and> (\<forall>k < getDimension (integrand base). binb (built base n) ! k \<noteq> [])"
    then show "integral (built base n) = Inr (midpoint_sum (integrand base) (binb (built base n)))"
      using integral_eq_midpoint_sum [of "built base n"] by simp
  qed
  show ?thesis
  proof (intro conjI allI impI)
    show "\<exists>s. RooBinIntegrator_ctor base = Inr s \<and> binb s ! i = bs
            \<and> (valid base \<and> (\<forall>k < getDimension (integrand base). binb s ! k \<noteq> []) \<longrightarrow>
                 integral s = Inr (midpoint_sum (integrand base) (binb s)))"
      using RooBinIntegrator_ctor_eq [OF assms(1)] stored [of 100] by blast
  next
    fix n
    assume "Int_of_Double (config ''RooBinIntegrator'' ''numBins'') = Inr n \<and> n < 2147483647"
    then have "RooBinIntegrator_ctor_config base config = Inr (built base n)"
      using RooBinIntegrator_ctor_config_eq [OF assms(1)] by blast
    then show "\<exists>s. RooBinIntegrator_ctor_config base config = Inr s \<and> binb s ! i = bs
            \<and> (valid base \<and> (\<forall>k < getDimension (integrand base). binb s ! k \<noteq> []) \<longrightarrow>
                 integral s = Inr (midpoint_sum (integrand base) (binb s)))"
      using stored [of n] by blast
  qed
qed

text \<open>
  An instance of C3: the boundaries \<open>[0,1,3,7]\<close> give the three bins of widths 1, 2 and 4,
  and the integral of \<open>x\<close> over them is \<open>0.5 * 1 + 2 * 2 + 5 * 4\<close>.
\<close>

theorem supplied_boundaries_used_witness:
  "(\<exists>s. RooBinIntegrator_ctor (example_base 1 example_binning) = Inr s
       \<and> binb s ! 0 = [Val 0, Val 1, Val 3, Val 7]
       \<and> integral s = Inr (Val (49 / 2)))
   \<and> (\<exists>s. RooBinIntegrator_ctor_config (example_base 1 example_binning) (example_config (Val 4)) = Inr s
       \<and> binb s ! 0 = [Val 0, Val 1, Val 3, Val 7]
       \<and> integral s = Inr (Val (49 / 2)))
   \<and> map bin_width (bins [Val 0, Val 1, Val 3, Val 7]) = [Val 1, Val 2, Val 4]"
proof -
  have sum: "midpoint_sum (integrand (example_base 1 example_binning)) tbl = Val (49 / 2)"
    if "tbl ! 0 = [Val 0, Val 1, Val 3, Val 7]" for tbl
    using that
    by (simp add: midpoint_sum_def midpoint_sum1_def bins_def bin_term1_def midpoint_def
          bin_width_def minus_Double_t_def round_eval)
  have widths: "map bin_width (bins [Val 0, Val 1, Val 3, Val 7]) = [Val 1, Val 2, Val 4]"
    by (simp add: bins_def bin_width_def minus_Double_t_def round_eval)
  show ?thesis
    using supplied_boundaries_used [of "example_base 1 example_binning" 0
        "[Val 0, Val 1, Val 3, Val 7]" "example_config (Val 4)"] sum widths
    by (simp add: example_binning_def example_config_def Int_of_Double_4) (force simp: sum)
qed

text \<open>
  Claim C4. When the integrand supplies no boundaries for dimension \<open>i\<close>, the row of the
  bin table holds \<open>numBins + 1\<close> boundaries, the \<open>j\<close>-th being
  \<open>min + j * (max - min) / numBins\<close> for \<open>j = 0, \<dots>, numBins\<close>, where \<open>numBins\<close> is 100
  for the constructor on a function binding and the \<^verbatim>\<open>numBins\<close> option, cast to
  \<^verbatim>\<open>Int_t\<close>, for the constructor with a configuration. For the latter the bin count is
  taken non-negative and below the largest \<^verbatim>\<open>Int_t\<close>, where the loop counter would overflow.
\<close>

theorem absent_boundaries_uniform:
  assumes "isValid (integrand base)" and "i < getDimension (integrand base)"
    and "binBoundaries (integrand base) i = None"
  shows "(\<exists>s. RooBinIntegrator_ctor base = Inr s \<and> numBins s = 100
            \<and> length (binb s ! i) = 101
            \<and> (\<forall>j\<in>{0..100}. binb s ! i ! nat j
                  = getMinLimit (integrand base) i
                    + Double_of_Int j * (getMaxLimit (integrand base) i - getMinLimit (integrand base) i)
                      / Double_of_Int 100))
       \<and> (\<forall>n. Int_of_Double (config ''RooBinIntegrator'' ''numBins'') = Inr n
               \<and> 0 \<le> n \<and> n < 2147483647 \<longrightarrow>
            (\<exists>s. RooBinIntegrator_ctor_config base config = Inr s \<and> numBins s = n
               \<and> int (length (binb s ! i)) = n + 1
               \<and> (\<forall>j\<in>{0..n}. binb s ! i ! nat j
                     = getMinLimit (integrand base) i
                       + Double_of_Int j * (getMaxLimit (integrand base) i - getMinLimit (integrand base) i)
                         / Double_of_Int n)))"
proof (intro conjI allI impI)
  let ?lo = "getMinLimit (integrand base) i" and ?hi = "getMaxLimit (integrand base) i"
  have row: "binb (built base n) ! i = map (uniform_boundary ?lo ?hi n) [0..n]" for n
    using assms(2,3) by (simp add: binning_of_None)
  show "\<exists>s. RooBinIntegrator_ctor base = Inr s \<and> numBins s = 100
            \<and> length (binb s ! i) = 101
            \<and> (\<forall>j\<in>{0..100}. binb s ! i ! nat j
                  = ?lo + Double_of_Int j * (?hi - ?lo) / Double_of_Int 100)"
  proof (intro exI conjI)
    show "RooBinIntegrator_ctor base = Inr (built base 100)"
      by (rule RooBinIntegrator_ctor_eq [OF assms(1)])
    show "numBins (built base 100) = 100"
      by simp
    show "length (binb (built base 100) ! i) = 101"
      unfolding row by simp
    show "\<forall>j\<in>{0..100}. binb (built base 100) ! i ! nat j
            = ?lo + Double_of_Int j * (?hi - ?lo) / Double_of_Int 100"
      using uniform_row(2) [of 100 ?lo ?hi] unfolding row by simp
  qed
next
  fix n
  let ?lo = "getMinLimit (integrand base) i" and ?hi = "getMaxLimit (integrand base) i"
  assume n: "Int_of_Double (config ''RooBinIntegrator'' ''numBins'') = Inr n \<and> 0 \<le> n \<and> n < 2147483647"
  have row: "binb (built base n) ! i = map (uniform_boundary ?lo ?hi n) [0..n]"
    using assms(2,3) by (simp add: binning_of_None)
  show "\<exists>s. RooBinIntegrator_ctor_config base config = Inr s \<and> numBins s = n
            \<and> int (length (binb s ! i)) = n + 1
            \<and> (\<forall>j\<in>{0..n}. binb s ! i ! nat j
                  = ?lo + Double_of_Int j * (?hi - ?lo) / Double_of_Int n)"
  proof (intro exI conjI)
    show "RooBinIntegrator_ctor_config base config = Inr (built base n)"
      using RooBinIntegrator_ctor_config_eq [OF assms(1)] n by blast
    show "numBins (built base n) = n"
      by simp
    show "int (length (binb (built base n) ! i)) = n + 1"
      using uniform_row(1) [of n ?lo ?hi] n unfolding row by blast
    show "\<forall>j\<in>{0..n}. binb (built base n) ! i ! nat j
            = ?lo + Double_of_Int j * (?hi - ?lo) / Double_of_Int n"
      using uniform_row(2) [of n ?lo ?hi] n unfolding row by blast
  qed
qed

text \<open>
  An instance of C4: on \<open>[0,7]\<close> the middle boundary is 3.5, with 100 bins and with 4.
\<close>

theorem absent_boundaries_uniform_witness:
  "(\<exists>s. RooBinIntegrator_ctor (example_base 1 no_binning) = Inr s \<and> numBins s = 100
       \<and> length (binb s ! 0) = 101 \<and> binb s ! 0 ! 50 = Val (7 / 2))
   \<and> (\<exists>s. RooBinIntegrator_ctor_config (example_base 1 no_binning) (example_config (Val 4)) = Inr s
       \<and> numBins s = 4 \<and> length (binb s ! 0) = 5 \<and> binb s ! 0 ! 2 = Val (7 / 2))"
proof -
  note inst = absent_boundaries_uniform [of "example_base 1 no_binning" 0 "example_config (Val 4)"]
  have hyps: "isValid (integrand (example_base 1 no_binning))"
    "0 < getDimension (integrand (example_base 1 no_binning))"
    "binBoundaries (integrand (example_base 1 no_binning)) 0 = None"
    by (simp_all add: no_binning_def)
  obtain s1 where s1: "RooBinIntegrator_ctor (example_base 1 no_binning) = Inr s1"
      "numBins s1 = 100" "length (binb s1 ! 0) = 101"
      "\<forall>j\<in>{0..100}. binb s1 ! 0 ! nat j = Val 0 + Double_of_Int j * (Val 7 - Val 0) / Double_of_Int 100"
    using inst [OF hyps] by auto
  have "Int_of_Double (example_config (Val 4) ''RooBinIntegrator'' ''numBins'') = Inr 4
        \<and> (0::int) \<le> 4 \<and> (4::int) < 2147483647"
    by (simp add: example_config_def Int_of_Double_4)
  then obtain s2 where s2:
      "RooBinIntegrator_ctor_config (example_base 1 no_binning) (example_config (Val 4)) = Inr s2"
      "numBins s2 = 4" "int (length (binb s2 ! 0)) = 4 + 1"
      "\<forall>j\<in>{0..4}. binb s2 ! 0 ! nat j = Val 0 + Double_of_Int j * (Val 7 - Val 0) / Double_of_Int 4"
    using inst [OF hyps] by auto
  have "binb s1 ! 0 ! nat 50 = Val (7 / 2)"
    using bspec [OF s1(4), of 50] by (simp add: Double_of_Int_def minus_Double_t_def round_eval)
  moreover have "binb s2 ! 0 ! nat 2 = Val (7 / 2)"
    using bspec [OF s2(4), of 2] by (simp add: Double_of_Int_def minus_Double_t_def round_eval)
  ultimately show ?thesis
    using s1(1-3) s2(1-3) by auto
qed

text \<open>
  Claim C5. \<^verbatim>\<open>checkLimits\<close> returns false exactly when some dimension has
  \<open>max \<le> min\<close> or a bound that is an infinity or NaN, tested on the limits it leaves: with
  integrand-authoritative limits these are the integrand's current limits, written over the
  stored ones for every dimension before the tests; otherwise the stored limits, unchanged.
  The assertion on the integrand must pass in the first case, and the stored limits must
  cover every dimension in the second.
\<close>

theorem checkLimits_verdict:
  fixes s :: RooBinIntegrator
  assumes "useIntegrandLimits s \<longrightarrow> isValid (integrand s)"
    and "\<not> useIntegrandLimits s \<longrightarrow>
           getDimension (integrand s) \<le> length (xmin s) \<and> getDimension (integrand s) \<le> length (xmax s)"
  shows "\<exists>ok s'. checkLimits s = Inr (ok, s')
           \<and> s' = (if useIntegrandLimits s
                   then s\<lparr>xmin := map (getMinLimit (integrand s)) [0..<getDimension (integrand s)],
                          xmax := map (getMaxLimit (integrand s)) [0..<getDimension (integrand s)]\<rparr>
                   else s)
           \<and> (ok = False \<longleftrightarrow>
                (\<exists>i < getDimension (integrand s).
                    xmax s' ! i \<le> xmin s' ! i
                  \<or> xmin s' ! i \<in> {PosInf, NegInf, NaN} \<or> xmax s' ! i \<in> {PosInf, NegInf, NaN}))"
proof (cases "useIntegrandLimits s")
  case True
  let ?s' = "s\<lparr>xmin := map (getMinLimit (integrand s)) [0..<getDimension (integrand s)],
               xmax := map (getMaxLimit (integrand s)) [0..<getDimension (integrand s)]\<rparr>"
  have "isValid (integrand s)"
    using assms(1) True by simp
  then have "checkLimits s
      = Inr (\<not> (\<exists>i\<in>set [0..<getDimension (integrand s)]. xmax ?s' ! i \<le> xmin ?s' ! i
                   \<or> RooNumber_isInfinite (xmin ?s' ! i) \<or> RooNumber_isInfinite (xmax ?s' ! i)), ?s')"
    using True by (simp add: checkLimits_def update_limits_eq check_range_eq)
  then show ?thesis
    using True by (auto simp: RooNumber_isInfinite_iff)
next
  case False
  then show ?thesis
    using checkLimits_external [of s] assms(2)
    by (auto simp: RooNumber_isInfinite_iff)
qed

text \<open>
  Instances of C5: the limits \<open>[0,7]\<close> fetched for two dimensions pass; a stored upper
  limit NaN fails.
\<close>

theorem checkLimits_verdict_witness:
  "checkLimits (example_state 2 True [])
     = Inr (True, (example_state 2 True [])\<lparr>xmin := [Val 0, Val 0], xmax := [Val 7, Val 7]\<rparr>)
   \<and> checkLimits ((example_state 1 False [])\<lparr>xmax := [NaN]\<rparr>)
     = Inr (False, (example_state 1 False [])\<lparr>xmax := [NaN]\<rparr>)"
proof -
  have "checkLimits (example_state 2 True [])
     = Inr (True, (example_state 2 True [])\<lparr>xmin := [Val 0, Val 0], xmax := [Val 7, Val 7]\<rparr>)"
    using checkLimits_verdict [of "example_state 2 True []"]
    by (auto simp: example_state_def example_func_def all_less_2 less_2_cases_iff
          upt_conv_Cons)
  moreover have "checkLimits ((example_state 1 False [])\<lparr>xmax := [NaN]\<rparr>)
     = Inr (False, (example_state 1 False [])\<lparr>xmax := [NaN]\<rparr>)"
    using checkLimits_verdict [of "(example_state 1 False [])\<lparr>xmax := [NaN]\<rparr>"]
    by (auto simp: example_state_def example_func_def)
  ultimately show ?thesis
    by simp
qed

text \<open>
  Claim C6. With integrand-authoritative limits \<^verbatim>\<open>setLimits\<close> returns false and leaves
  the state as it is. Otherwise, on stored limits that are non-empty and cover every
  dimension, it overwrites the stored minimum and maximum of dimension 0 and returns what
  \<^verbatim>\<open>checkLimits\<close> returns on the updated state.
\<close>

theorem setLimits_effect:
  fixes s :: RooBinIntegrator
  shows "(useIntegrandLimits s \<longrightarrow> setLimits s newMin newMax = Inr (False, s))
       \<and> (\<not> useIntegrandLimits s \<and> xmin s \<noteq> [] \<and> xmax s \<noteq> []
             \<and> getDimension (integrand s) \<le> length (xmin s)
             \<and> getDimension (integrand s) \<le> length (xmax s) \<longrightarrow>
           (\<exists>ok s'. setLimits s newMin newMax = Inr (ok, s')
              \<and> s' = s\<lparr>xmin := (xmin s)[0 := newMin], xmax := (xmax s)[0 := newMax]\<rparr>
              \<and> xmin s' ! 0 = newMin \<and> xmax s' ! 0 = newMax
              \<and> checkLimits s' = Inr (ok, s')))"
proof (intro conjI impI)
  assume "useIntegrandLimits s"
  then show "setLimits s newMin newMax = Inr (False, s)"
    by (simp add: setLimits_def)
next
  let ?s' = "s\<lparr>xmin := (xmin s)[0 := newMin], xmax := (xmax s)[0 := newMax]\<rparr>"
  assume a: "\<not> useIntegrandLimits s \<and> xmin s \<noteq> [] \<and> xmax s \<noteq> []
             \<and> getDimension (integrand s) \<le> length (xmin s)
             \<and> getDimension (integrand s) \<le> length (xmax s)"
  then have set: "setLimits s newMin newMax = checkLimits ?s'"
    by (simp add: setLimits_def)
  obtain ok where ok: "checkLimits ?s' = Inr (ok, ?s')"
    using checkLimits_external [of ?s'] a by simp
  show "\<exists>ok s'. setLimits s newMin newMax = Inr (ok, s')
              \<and> s' = ?s' \<and> xmin s' ! 0 = newMin \<and> xmax s' ! 0 = newMax
              \<and> checkLimits s' = Inr (ok, s')"
    using set ok a by simp
qed

text \<open>
  Instances of C6: the same call is rejected with integrand-authoritative limits and
  accepted without.
\<close>

theorem setLimits_effect_witness:
  "setLimits (example_state 1 True [[Val 0, Val 1, Val 3, Val 7]]) (Val 1) (Val 5)
     = Inr (False, example_state 1 True [[Val 0, Val 1, Val 3, Val 7]])
   \<and> setLimits (example_state 1 False [[Val 0, Val 1, Val 3, Val 7]]) (Val 1) (Val 5)
     = Inr (True, (example_state 1 False [[Val 0, Val 1, Val 3, Val 7]])\<lparr>xmin := [Val 1], xmax := [Val 5]\<rparr>)"
proof -
  let ?tbl = "[[Val 0, Val 1, Val 3, Val 7]]"
  let ?s' = "(example_state 1 False ?tbl)\<lparr>xmin := [Val 1], xmax := [Val 5]\<rparr>"
  have "setLimits (example_state 1 True ?tbl) (Val 1) (Val 5) = Inr (False, example_state 1 True ?tbl)"
    using setLimits_effect [of "example_state 1 True ?tbl" "Val 1" "Val 5"]
    by (simp add: example_state_def)
  moreover have "checkLimits ?s' = Inr (True, ?s')"
    by (simp add: checkLimits_def example_state_def example_func_def)
  then have "setLimits (example_state 1 False ?tbl) (Val 1) (Val 5) = Inr (True, ?s')"
    using setLimits_effect [of "example_state 1 False ?tbl" "Val 1" "Val 5"]
    by (auto simp: example_state_def example_func_def)
  ultimately show ?thesis
    by simp
qed

text \<open>
  Claim C7, as stated, fails for an integrand that returns a list without entries: the
  constructor tests the pointer only, stores the empty list as the row, and \<^verbatim>\<open>integral\<close>
  then reads the row out of range.
\<close>

theorem empty_boundaries_counterexample:
  "RooBinIntegrator_ctor (example_base 1 empty_binning)
     = Inr (built (example_base 1 empty_binning) 100)
   \<and> binb (built (example_base 1 empty_binning) 100) ! 0 = []
   \<and> integral (built (example_base 1 empty_binning) 100) = Inl OutOfBounds"
proof -
  have "isValid (integrand (example_base 1 empty_binning))"
    by (simp add: example_base_def example_func_def)
  then have "RooBinIntegrator_ctor (example_base 1 empty_binning)
     = Inr (built (example_base 1 empty_binning) 100)"
    by (rule RooBinIntegrator_ctor_eq)
  moreover have "binb (built (example_base 1 empty_binning) 100) ! 0 = []"
    by (simp add: example_base_def example_func_def empty_binning_def binning_of_def)
  moreover have "integral (built (example_base 1 empty_binning) 100) = Inl OutOfBounds"
    by (simp add: integral_def sum1D_def bin_loop_def
          example_base_def example_func_def empty_binning_def binning_of_def)
  ultimately show ?thesis
    by simp
qed

text \<open>
  Claim C7, amended. When the integrand returns no list for dimension \<open>i\<close>, the row is the
  substitute binning, which is not empty for a non-negative bin count (always for the
  constructor on a function binding). When moreover no dimension returns a list without
  entries, no row of the bin table is empty and \<^verbatim>\<open>integral\<close> returns a value.
\<close>

theorem absent_boundaries_fallback:
  assumes "isValid (integrand base)"
  shows "(\<exists>s. RooBinIntegrator_ctor base = Inr s
            \<and> (\<forall>i < getDimension (integrand base). binBoundaries (integrand base) i = None \<longrightarrow>
                 binb s ! i = map (uniform_boundary (getMinLimit (integrand base) i)
                                     (getMaxLimit (integrand base) i) 100) [0..100]
                 \<and> binb s ! i \<noteq> [])
            \<and> (valid base
                 \<and> (\<forall>i < getDimension (integrand base). binBoundaries (integrand base) i \<noteq> Some []) \<longrightarrow>
                 (\<forall>i < getDimension (integrand base). binb s ! i \<noteq> [])
                 \<and> (\<exists>v. integral s = Inr v)))
       \<and> (\<forall>n. Int_of_Double (config ''RooBinIntegrator'' ''numBins'') = Inr n
               \<and> 0 \<le> n \<and> n < 2147483647 \<longrightarrow>
           (\<exists>s. RooBinIntegrator_ctor_config base config = Inr s
            \<and> (\<forall>i < getDimension (integrand base). binBoundaries (integrand base) i = None \<longrightarrow>
                 binb s ! i = map (uniform_boundary (getMinLimit (integrand base) i)
                                     (getMaxLimit (integrand base) i) n) [0..n]
                 \<and> binb s ! i \<noteq> [])
            \<and> (valid base
                 \<and> (\<forall>i < getDimension (integrand base). binBoundaries (integrand base) i \<noteq> Some []) \<longrightarrow>
                 (\<forall>i < getDimension (integrand base). binb s ! i \<noteq> [])
                 \<and> (\<exists>v. integral s = Inr v))))"
proof -
  let ?f = "integrand base"
  have fallback: "\<forall>i < getDimension ?f. binBoundaries ?f i = None \<longrightarrow>
          binb (built base n) ! i
            = map (uniform_boundary (getMinLimit ?f i) (getMaxLimit ?f i) n) [0..n]
          \<and> binb (built base n) ! i \<noteq> []" if "0 \<le> n" for n
    using that by (auto simp: binning_of_None upto.simps)
  have defined: "(\<forall>i < getDimension ?f. binb (built base n) ! i \<noteq> [])
                 \<and> (\<exists>v. integral (built base n) = Inr v)"
    if "0 \<le> n" and "valid base" and "\<forall>i < getDimension ?f. binBoundaries ?f i \<noteq> Some []" for n
  proof -
    have rows: "\<forall>i < getDimension ?f. binb (built base n) ! i \<noteq> []"
      using that(1,3) by (simp add: binning_of_nonempty)
    then have "\<exists>v. integral (built base n) = Inr v"
      using integral_defined [of "built base n"] that(2) by simp
    then show ?thesis
      using rows by blast
  qed
  have hundred: "(0::int) \<le> 100"
    by simp
  show ?thesis
  proof (intro conjI allI impI)
    show "\<exists>s. RooBinIntegrator_ctor base = Inr s
            \<and> (\<forall>i < getDimension ?f. binBoundaries ?f i = None \<longrightarrow>
                 binb s ! i = map (uniform_boundary (getMinLimit ?f i) (getMaxLimit ?f i) 100) [0..100]
                 \<and> binb s ! i \<noteq> [])
            \<and> (valid base \<and> (\<forall>i < getDimension ?f. binBoundaries ?f i \<noteq> Some []) \<longrightarrow>
                 (\<forall>i < getDimension ?f. binb s ! i \<noteq> []) \<and> (\<exists>v. integral s = Inr v))"
      using RooBinIntegrator_ctor_eq [OF assms] fallback [OF hundred] defined [OF hundred]
      by (intro exI [of _ "built base 100"]) blast
  next
    fix n
    assume n: "Int_of_Double (config ''RooBinIntegrator'' ''numBins'') = Inr n
               \<and> 0 \<le> n \<and> n < 2147483647"
    then have "RooBinIntegrator_ctor_config base config = Inr (built base n)"
      using RooBinIntegrator_ctor_config_eq [OF assms] by blast
    then show "\<exists>s. RooBinIntegrator_ctor_config base config = Inr s
            \<and> (\<forall>i < getDimension ?f. binBoundaries ?f i = None \<longrightarrow>
                 binb s ! i = map (uniform_boundary (getMinLimit ?f i) (getMaxLimit ?f i) n) [0..n]
                 \<and> binb s ! i \<noteq> [])
            \<and> (valid base \<and> (\<forall>i < getDimension ?f. binBoundaries ?f i \<noteq> Some []) \<longrightarrow>
                 (\<forall>i < getDimension ?f. binb s ! i \<noteq> []) \<and> (\<exists>v. integral s = Inr v))"
      using fallback [of n] defined [of n] n
      by (intro exI [of _ "built base n"]) blast
  qed
qed

text \<open>
  An instance of the amended C7: one dimension without boundaries, with 100 bins and with 4.
\<close>

theorem absent_boundaries_fallback_witness:
  "(\<exists>s. RooBinIntegrator_ctor (example_base 1 no_binning) = Inr s
       \<and> binb s ! 0 \<noteq> [] \<and> (\<exists>v. integral s = Inr v))
   \<and> (\<exists>s. RooBinIntegrator_ctor_config (example_base 1 no_binning) (example_config (Val 4)) = Inr s
       \<and> binb s ! 0 = [Val 0, Val (7 / 4), Val (7 / 2), Val (21 / 4), Val 7]
       \<and> (\<exists>v. integral s = Inr v))"
proof -
  note inst = absent_boundaries_fallback [of "example_base 1 no_binning" "example_config (Val 4)"]
  have isv: "isValid (integrand (example_base 1 no_binning))"
    by simp
  have row: "map (uniform_boundary (Val 0) (Val 7) 4) [0..4]
             = [Val 0, Val (7 / 4), Val (7 / 2), Val (21 / 4), Val 7]"
    by (simp add: upto.simps uniform_boundary_def Double_of_Int_def minus_Double_t_def round_eval)
  have "Int_of_Double (example_config (Val 4) ''RooBinIntegrator'' ''numBins'') = Inr 4
        \<and> (0::int) \<le> 4 \<and> (4::int) < 2147483647"
    by (simp add: example_config_def Int_of_Double_4)
  then show ?thesis
    using inst [OF isv] row
    by (simp add: no_binning_def) blast
qed

text \<open>
  Claim C8, as stated, fails in double arithmetic: for the constant 1 on \<open>[0,1]\<close> in two
  dimensions with 3 bins, the boundaries \<open>1/3\<close> and \<open>2/3\<close> are rounded, so are the products
  of the widths and their running sum, and \<^verbatim>\<open>integral\<close> returns \<open>1 + 2^-52\<close> where the
  claim says 1.
\<close>

theorem constant_integrand_counterexample:
  "RooBinIntegrator_ctor_config (constant_base 2 (Val 1) (Val 0) (Val 1)) (example_config (Val 3))
     = Inr (built (constant_base 2 (Val 1) (Val 0) (Val 1)) 3)
   \<and> integral (built (constant_base 2 (Val 1) (Val 0) (Val 1)) 3)
     = Inr (Val (4503599627370497 / 4503599627370496))
   \<and> Val (4503599627370497 / 4503599627370496) \<noteq> Val (1 * ((1 - 0) * (1 - 0)))"
proof -
  let ?base = "constant_base 2 (Val 1) (Val 0) (Val 1)"
  let ?row = "[Val 0, Val (6004799503160661 / 18014398509481984),
               Val (6004799503160661 / 9007199254740992), Val 1]"
  have fields: "isValid (integrand ?base)" "valid ?base" "getDimension (integrand ?base) = 2"
    "eval (integrand ?base) = (\<lambda>x. Val 1)"
    by (simp_all add: constant_base_def constant_func_def)
  have ctor: "RooBinIntegrator_ctor_config ?base (example_config (Val 3)) = Inr (built ?base 3)"
    using fields(1) by (intro RooBinIntegrator_ctor_config_eq) (simp_all add: example_config_def Int_of_Double_3)
  have row: "binning_of (integrand ?base) 3 i = ?row" for i
    by (simp add: binning_of_def constant_base_def constant_func_def no_binning_def upto.simps
          uniform_boundary_def Double_of_Int_def minus_Double_t_def round_eval)
  have table: "binb (built ?base 3) = [?row, ?row]"
    by (simp add: fields(3) row upt_conv_Cons)
  have "integral (built ?base 3) = Inr (midpoint_sum (integrand ?base) (binb (built ?base 3)))"
    using integral_eq_midpoint_sum [of "built ?base 3"] fields(2,3)
    by (simp add: all_less_2 row)
  moreover have "midpoint_sum (integrand ?base) [?row, ?row]
                 = Val (4503599627370497 / 4503599627370496)"
    by (simp add: midpoint_sum_def midpoint_sum2_def fields(3,4) bins_def bin_term2_def
          bin_width_def minus_Double_t_def round_eval)
  ultimately have "integral (built ?base 3) = Inr (Val (4503599627370497 / 4503599627370496))"
    by (simp only: table)
  then show ?thesis
    using ctor by simp
qed

text \<open>
  Claim C8, amended. For a constant integrand with an integer value \<open>c\<close>, on a bin table
  whose boundaries are strictly increasing integers with at least one bin in each of the one,
  two or three dimensions, and with \<open>max(1, |c|)\<close> times the domain hypervolume below
  \<open>2^53\<close>, no operation of the summation rounds and \<^verbatim>\<open>integral\<close> returns exactly \<open>c\<close>
  times the product of the domain lengths.
\<close>

theorem constant_integrand_exact:
  fixes rows :: "int list list"
  assumes "valid s" and "eval (integrand s) = (\<lambda>x. Val (of_int c))"
    and "binb s = map (map (\<lambda>k. Val (of_int k))) rows"
    and "getDimension (integrand s) = length rows" and "length rows \<in> {1, 2, 3}"
    and "\<forall>r\<in>set rows. sorted_wrt (<) r \<and> 2 \<le> length r"
    and "max 1 \<bar>c\<bar> * prod_list (map (\<lambda>r. last r - hd r) rows) < 2 ^ 53"
  shows "integral s = Inr (Val (of_int (c * prod_list (map (\<lambda>r. last r - hd r) rows))))"
proof -
  have "\<forall>i < length rows. rows ! i \<noteq> []"
  proof (intro allI impI)
    fix i
    assume "i < length rows"
    then have "2 \<le> length (rows ! i)"
      using assms(6) nth_mem by blast
    then show "rows ! i \<noteq> []"
      by auto
  qed
  then have "\<forall>i < getDimension (integrand s). binb s ! i \<noteq> []"
    using assms(3,4) by simp
  then have sum: "integral s = Inr (midpoint_sum (integrand s) (binb s))"
    using assms(1,3,4) by (intro integral_eq_midpoint_sum) simp_all
  consider kx where "rows = [kx]" | kx ky where "rows = [kx, ky]"
    | kx ky kz where "rows = [kx, ky, kz]"
    using assms(5) by (auto simp: length_Suc_conv numeral_2_eq_2 numeral_3_eq_3)
  then show ?thesis
  proof cases
    case 1
    then show ?thesis
      using assms(2,3,4,6,7)
      by (simp add: sum midpoint_sum_def midpoint_sum1_const)
  next
    case 2
    then show ?thesis
      using assms(2,3,4,6,7)
      by (simp add: sum midpoint_sum_def midpoint_sum2_const)
  next
    case 3
    then show ?thesis
      using assms(2,3,4,6,7)
      by (simp add: sum midpoint_sum_def midpoint_sum3_const mult.assoc [symmetric])
  qed
qed

text \<open>
  An instance of the amended C8: the constant 3 on \<open>[0,7] x [0,7]\<close> with the bins
  \<open>[0,1,3,7]\<close> by \<open>[0,2,7]\<close>.
\<close>

theorem constant_integrand_exact_witness:
  "integral (constant_state 2 (Val 3) (Val 0) (Val 7)
               [[Val 0, Val 1, Val 3, Val 7], [Val 0, Val 2, Val 7]])
   = Inr (Val 147)"
  using constant_integrand_exact [of "constant_state 2 (Val 3) (Val 0) (Val 7)
               [[Val 0, Val 1, Val 3, Val 7], [Val 0, Val 2, Val 7]]" 3 "[[0, 1, 3, 7], [0, 2, 7]]"]
  by (simp add: constant_state_def constant_func_def)

text \<open>
  Claim C9. \<^verbatim>\<open>checkLimits\<close> and \<^verbatim>\<open>setLimits\<close> leave the bin table as it is, and
  \<^verbatim>\<open>integral\<close>, which returns a value and no state, gives the same result after them as
  before. A \<^verbatim>\<open>setLimits\<close> that is not rejected changes the stored limits of dimension 0
  and nothing else.
\<close>

theorem bin_table_unchanged:
  fixes s :: RooBinIntegrator
  shows "(\<forall>ok s'. checkLimits s = Inr (ok, s') \<longrightarrow> binb s' = binb s \<and> integral s' = integral s)
       \<and> (\<forall>ok s'. setLimits s newMin newMax = Inr (ok, s') \<longrightarrow>
              binb s' = binb s \<and> integral s' = integral s
            \<and> (\<not> useIntegrandLimits s \<longrightarrow>
                 s' = s\<lparr>xmin := (xmin s)[0 := newMin], xmax := (xmax s)[0 := newMax]\<rparr>))"
proof (intro conjI allI impI)
  fix ok s'
  assume "checkLimits s = Inr (ok, s')"
  then obtain mins maxs where "s' = s\<lparr>xmin := mins, xmax := maxs\<rparr>"
    using checkLimits_frame by blast
  then show "binb s' = binb s" and "integral s' = integral s"
    by (simp_all add: integral_frame)
next
  fix ok s'
  let ?s1 = "s\<lparr>xmin := (xmin s)[0 := newMin], xmax := (xmax s)[0 := newMax]\<rparr>"
  assume r: "setLimits s newMin newMax = Inr (ok, s')"
  have cases: "s' = s \<or> (\<not> useIntegrandLimits s \<and> checkLimits ?s1 = Inr (ok, s'))"
    using r by (auto simp: setLimits_def split: if_splits)
  then have "\<exists>mins maxs. s' = s\<lparr>xmin := mins, xmax := maxs\<rparr>"
  proof
    assume "s' = s"
    then have "s' = s\<lparr>xmin := xmin s, xmax := xmax s\<rparr>"
      by simp
    then show ?thesis
      by blast
  next
    assume "\<not> useIntegrandLimits s \<and> checkLimits ?s1 = Inr (ok, s')"
    then obtain mins maxs where "s' = ?s1\<lparr>xmin := mins, xmax := maxs\<rparr>"
      using checkLimits_frame by blast
    then have "s' = s\<lparr>xmin := mins, xmax := maxs\<rparr>"
      by simp
    then show ?thesis
      by blast
  qed
  then show "binb s' = binb s" and "integral s' = integral s"
    by (auto simp: integral_frame)
  show "s' = ?s1" if "\<not> useIntegrandLimits s"
  proof -
    have c: "checkLimits ?s1 = Inr (ok, s')"
      using r that by (auto simp: setLimits_def split: if_splits)
    moreover have "\<not> useIntegrandLimits ?s1"
      using that by simp
    ultimately show ?thesis
      by (cases "check_range (xmin ?s1) (xmax ?s1) [0..<getDimension (integrand ?s1)]")
         (auto simp: checkLimits_def)
  qed
qed

text \<open>
  An instance of C9: after an accepted \<^verbatim>\<open>setLimits\<close> the bin table and the integral are
  what they were.
\<close>

theorem bin_table_unchanged_witness:
  "setLimits (example_state 1 False [[Val 0, Val 1, Val 3, Val 7]]) (Val 1) (Val 5)
     = Inr (True, (example_state 1 False [[Val 0, Val 1, Val 3, Val 7]])\<lparr>xmin := [Val 1], xmax := [Val 5]\<rparr>)
   \<and> binb ((example_state 1 False [[Val 0, Val 1, Val 3, Val 7]])\<lparr>xmin := [Val 1], xmax := [Val 5]\<rparr>)
       = [[Val 0, Val 1, Val 3, Val 7]]
   \<and> integral ((example_state 1 False [[Val 0, Val 1, Val 3, Val 7]])\<lparr>xmin := [Val 1], xmax := [Val 5]\<rparr>)
       = integral (example_state 1 False [[Val 0, Val 1, Val 3, Val 7]])"
proof -
  let ?s = "example_state 1 False [[Val 0, Val 1, Val 3, Val 7]]"
  let ?s' = "?s\<lparr>xmin := [Val 1], xmax := [Val 5]\<rparr>"
  have set: "setLimits ?s (Val 1) (Val 5) = Inr (True, ?s')"
    by (simp add: setLimits_def checkLimits_def example_state_def example_func_def)
  then have "binb ?s' = binb ?s \<and> integral ?s' = integral ?s"
    using bin_table_unchanged [of ?s "Val 1" "Val 5"] by blast
  then show ?thesis
    using set by (simp add: example_state_def)
qed

text \<open>
  Claim C10. When the \<^verbatim>\<open>numBins\<close> option is 100, the constructor with a configuration
  gives the same result as the constructor on a function binding: the same failure, or the
  same integrator, with the same limits, bin table and integral.
\<close>

theorem ctor_modes_agree:
  assumes "config ''RooBinIntegrator'' ''numBins'' = Val 100"
  shows "RooBinIntegrator_ctor_config base config = RooBinIntegrator_ctor base
       \<and> (\<forall>s1 s2. RooBinIntegrator_ctor base = Inr s1
                   \<and> RooBinIntegrator_ctor_config base config = Inr s2 \<longrightarrow>
            xmin s2 = xmin s1 \<and> xmax s2 = xmax s1 \<and> binb s2 = binb s1
            \<and> integral s2 = integral s1)"
proof -
  have "RooBinIntegrator_ctor_config base config = RooBinIntegrator_ctor base"
  proof (cases "isValid (integrand base)")
    case True
    then show ?thesis
      using RooBinIntegrator_ctor_config_eq [of base config 100] RooBinIntegrator_ctor_eq [of base]
        assms
      by (simp add: Int_of_Double_100)
  next
    case False
    then show ?thesis
      using ctor_config_invalid [of base config 100] ctor_invalid [of base] assms
      by (simp add: Int_of_Double_100)
  qed
  then show ?thesis
    by auto
qed

text \<open>
  An instance of C10: a 2-dimensional integrand without boundaries.
\<close>

theorem ctor_modes_agree_witness:
  "example_config (Val 100) ''RooBinIntegrator'' ''numBins'' = Val 100
   \<and> RooBinIntegrator_ctor_config (example_base 2 no_binning) (example_config (Val 100))
       = RooBinIntegrator_ctor (example_base 2 no_binning)"
  using ctor_modes_agree [of "example_config (Val 100)" "example_base 2 no_binning"]
  by (simp add: example_config_def)

end
